theory Spec2Isabelle
  imports Main "HOL-Library.Word" "HOL-Library.Char_ord" "HOL-Library.List_Lexorder" "HOL-Library.Sublist"
begin

section \<open>The file cache of file\_cache\_impl.cc\<close>

text \<open>
  A shallow embedding of \<^verbatim>\<open>FileCacheImpl\<close>: the cache table (a \<^verbatim>\<open>std::map\<close> from file
  name to \<^verbatim>\<open>CacheEntry\<close>), the four public operations, the private helpers
  \<^verbatim>\<open>evict_cache_entries\<close>, \<^verbatim>\<open>add_cache_entry\<close>, \<^verbatim>\<open>fill_up_cache\<close> and the destructor of
  \<^verbatim>\<open>CacheEntry\<close>. The system calls the code issues (\<^verbatim>\<open>open\<close>, \<^verbatim>\<open>lseek\<close>, \<^verbatim>\<open>read\<close>,
  \<^verbatim>\<open>write\<close>, \<^verbatim>\<open>close\<close>) act on an explicit storage state; whether a call fails is decided
  by the storage, as a function of the calls issued so far, so every theorem holds for
  every pattern of failures.
\<close>

subsection \<open>Storage: the system calls\<close>

text \<open>\<^verbatim>\<open>#define FILE_SIZE 10240\<close>\<close>

definition FILE_SIZE :: nat where
  "FILE_SIZE = 10240"

datatype syscall =
    Open string
  | Lseek int
  | Read int
  | Write int "char list"
  | Close int

text \<open>
  \<open>files\<close> holds the contents of the files that exist, \<open>fdtab\<close> the open descriptors,
  \<open>trace\<close> the calls issued so far (oldest first) and \<open>errlog\<close> the lines printed to
  \<^verbatim>\<open>stderr\<close>. The three \<open>_result\<close> fields are the behaviour of the operating system:
  \<open>None\<close> is the failure return \<open>-1\<close>; \<open>open\<close> answers the descriptor, \<open>read\<close> and
  \<open>write\<close> the largest number of bytes they are willing to transfer. \<open>strerror_errno\<close>
  is the text of \<^verbatim>\<open>strerror(errno)\<close>.
\<close>

record storage =
  files :: "string \<rightharpoonup> char list"
  fdtab :: "int \<rightharpoonup> string"
  trace :: "syscall list"
  errlog :: "string list"
  open_result :: "syscall list \<Rightarrow> string \<Rightarrow> nat option"
  read_result :: "syscall list \<Rightarrow> int \<Rightarrow> nat option"
  write_result :: "syscall list \<Rightarrow> int \<Rightarrow> nat option"
  strerror_errno :: "syscall list \<Rightarrow> string"

definition issue :: "syscall \<Rightarrow> storage \<Rightarrow> storage" where
  "issue c st = st\<lparr>trace := trace st @ [c]\<rparr>"

definition contents :: "storage \<Rightarrow> string \<Rightarrow> char list" where
  "contents st name = (case files st name of None \<Rightarrow> [] | Some bytes \<Rightarrow> bytes)"

text \<open>\<^verbatim>\<open>::open(name, O_RDWR | O_CREAT, 0777)\<close>: a file that is absent is created empty.\<close>

definition sys_open :: "string \<Rightarrow> storage \<Rightarrow> int \<times> storage" where
  "sys_open name st =
     (case open_result st (trace st) name of
        None \<Rightarrow> (- 1, issue (Open name) st)
      | Some n \<Rightarrow>
          (int n,
           (issue (Open name) st)
             \<lparr>files := (case files st name of
                          None \<Rightarrow> (files st)(name \<mapsto> [])
                        | Some bytes \<Rightarrow> files st),
              fdtab := (fdtab st)(int n \<mapsto> name)\<rparr>))"

text \<open>\<^verbatim>\<open>::lseek(fd, 0, SEEK_SET)\<close>; the code ignores what it returns.\<close>

definition sys_lseek :: "int \<Rightarrow> storage \<Rightarrow> storage" where
  "sys_lseek fd st = issue (Lseek fd) st"

text \<open>
  \<^verbatim>\<open>::read(fd, buf, count)\<close> at offset 0: the return value and the bytes stored into the
  buffer. A read returns at most \<open>count\<close> bytes and at most what the file holds.
\<close>

definition sys_read :: "int \<Rightarrow> nat \<Rightarrow> storage \<Rightarrow> int \<times> char list \<times> storage" where
  "sys_read fd count st =
     (case fdtab st fd of
        None \<Rightarrow> (- 1, [], issue (Read fd) st)
      | Some name \<Rightarrow>
          (case read_result st (trace st) fd of
             None \<Rightarrow> (- 1, [], issue (Read fd) st)
           | Some k \<Rightarrow>
               (let bytes = take (min k count) (contents st name)
                in (int (length bytes), bytes, issue (Read fd) st))))"

text \<open>\<^verbatim>\<open>::write(fd, buf, FILE_SIZE)\<close> at offset 0, \<open>buf\<close> being the whole buffer.\<close>

definition sys_write :: "int \<Rightarrow> char list \<Rightarrow> storage \<Rightarrow> int \<times> storage" where
  "sys_write fd buf st =
     (case fdtab st fd of
        None \<Rightarrow> (- 1, issue (Write fd buf) st)
      | Some name \<Rightarrow>
          (case write_result st (trace st) fd of
             None \<Rightarrow> (- 1, issue (Write fd buf) st)
           | Some k \<Rightarrow>
               (let n = min k (length buf)
                in (int n,
                    (issue (Write fd buf) st)
                      \<lparr>files := (files st)(name \<mapsto> take n buf @ drop n (contents st name))\<rparr>))))"

definition sys_close :: "int \<Rightarrow> storage \<Rightarrow> storage" where
  "sys_close fd st = (issue (Close fd) st)\<lparr>fdtab := (fdtab st)(fd := None)\<rparr>"

text \<open>\<^verbatim>\<open>fprintf(stderr, "%s\n", ...)\<close> of a message that ends in \<^verbatim>\<open>" : " << strerror(errno)\<close>.\<close>

definition report :: "string \<Rightarrow> storage \<Rightarrow> storage" where
  "report msg st = st\<lparr>errlog := errlog st @ [msg @ '' : '' @ strerror_errno st (trace st)]\<rparr>"

subsection \<open>Cache entries and the cache table\<close>

text \<open>
  \<^verbatim>\<open>struct CacheEntry\<close>: the buffer, \<^verbatim>\<open>uint32_t pin_count_\<close>, \<^verbatim>\<open>bool dirty_\<close>, \<^verbatim>\<open>int fd_\<close>.
\<close>

record CacheEntry =
  file_buf :: "char list"
  pin_count :: "32 word"
  dirty :: bool
  fd :: int

text \<open>
  \<^verbatim>\<open>std::map<std::string, CacheEntry>\<close>: the entries in the order of their keys, which is
  the order the iterators of the code visit them in. \<^verbatim>\<open>std::set<std::string>\<close> likewise.
\<close>

type_synonym table = "(string \<times> CacheEntry) list"

text \<open>\<^verbatim>\<open>insert\<close> of \<^verbatim>\<open>std::map\<close>: a key that is present keeps its entry.\<close>

fun map_insert :: "string \<Rightarrow> CacheEntry \<Rightarrow> table \<Rightarrow> table" where
  "map_insert k e [] = [(k, e)]"
| "map_insert k e ((k', e') # rest) =
     (if k = k' then (k', e') # rest
      else if k < k' then (k, e) # (k', e') # rest
      else (k', e') # map_insert k e rest)"

text \<open>An assignment through the iterator \<^verbatim>\<open>find\<close> returned: \<^verbatim>\<open>fitr->second.x = ...\<close>.\<close>

fun map_modify :: "string \<Rightarrow> (CacheEntry \<Rightarrow> CacheEntry) \<Rightarrow> table \<Rightarrow> table" where
  "map_modify k f [] = []"
| "map_modify k f ((k', e) # rest) =
     (if k = k' then (k', f e) # rest else (k', e) # map_modify k f rest)"

fun set_insert :: "string \<Rightarrow> string list \<Rightarrow> string list" where
  "set_insert x [] = [x]"
| "set_insert x (y # ys) =
     (if x = y then y # ys
      else if x < y then x # y # ys
      else y # set_insert x ys)"

text \<open>
  The object and the storage it works on. \<^verbatim>\<open>const int max_cache_entries_\<close> is a 32-bit
  signed integer, read with \<open>sint\<close>.
\<close>

record state =
  max_cache_entries :: "32 word"
  file_cache :: table
  disk :: storage

text \<open>\<^verbatim>\<open>cache_entries_evictable\<close> (file\_cache\_impl.h).\<close>

fun cache_entries_evictable :: "table \<Rightarrow> bool" where
  "cache_entries_evictable [] = False"
| "cache_entries_evictable ((name, ce) # rest) =
     (if pin_count ce = 0 then True else cache_entries_evictable rest)"

subsection \<open>The destructor of an entry, and eviction\<close>

text \<open>
  The seek and write both \<^verbatim>\<open>evict_cache_entries\<close> and \<^verbatim>\<open>~CacheEntry\<close> perform on a dirty
  entry; \<open>msg\<close> is what is printed when the write returns a negative value.
\<close>

definition flush :: "string \<Rightarrow> CacheEntry \<Rightarrow> storage \<Rightarrow> storage" where
  "flush msg ce st =
     (case sys_write (fd ce) (file_buf ce) (sys_lseek (fd ce) st) of
        (nbytes, st') \<Rightarrow> if nbytes < 0 then report msg st' else st')"

text \<open>\<^verbatim>\<open>FileCacheImpl::CacheEntry::~CacheEntry\<close>\<close>

definition CacheEntry_dtor :: "CacheEntry \<Rightarrow> storage \<Rightarrow> storage" where
  "CacheEntry_dtor ce st =
     (if pin_count ce = 0 then
        sys_close (fd ce) (if dirty ce then flush ''Error writing file '' ce st else st)
      else st)"

text \<open>
  The loop of \<^verbatim>\<open>evict_cache_entries\<close> over the entries from \<^verbatim>\<open>fitr\<close> on. It returns the
  entries that stay in the table, the storage and the counter. \<^verbatim>\<open>file_cache_.erase(fitr++)\<close>
  runs the destructor of the erased entry. The counter is the \<^verbatim>\<open>int\<close> of the code; a
  table has fewer than \<open>2^31\<close> entries, so it does not overflow.
\<close>

fun evict_loop :: "int \<Rightarrow> int \<Rightarrow> table \<Rightarrow> storage \<Rightarrow> table \<times> storage \<times> int" where
  "evict_loop num_cache_entries evicted [] st = ([], st, evicted)"
| "evict_loop num_cache_entries evicted ((name, ce) # rest) st =
     (if pin_count ce = 0 then
        (let st1 = (if dirty ce then flush (''Error writing file '' @ name) ce st else st);
             st2 = CacheEntry_dtor ce st1
         in if evicted + 1 = num_cache_entries then (rest, st2, evicted + 1)
            else evict_loop num_cache_entries (evicted + 1) rest st2)
      else
        (case evict_loop num_cache_entries evicted rest st of
           (kept, st', n) \<Rightarrow> ((name, ce) # kept, st', n)))"

text \<open>\<^verbatim>\<open>FileCacheImpl::evict_cache_entries\<close>; the result is converted to \<^verbatim>\<open>uint32_t\<close>.\<close>

definition evict_cache_entries :: "int \<Rightarrow> state \<Rightarrow> state \<times> 32 word" where
  "evict_cache_entries num_cache_entries s =
     (case evict_loop num_cache_entries 0 (file_cache s) (disk s) of
        (kept, st', n) \<Rightarrow> (s\<lparr>file_cache := kept, disk := st'\<rparr>, word_of_int n))"

subsection \<open>Creating an entry and filling the free slots\<close>

text \<open>\<^verbatim>\<open>new char[FILE_SIZE]()\<close> and \<^verbatim>\<open>memset(buf, c, n)\<close>\<close>

definition new_buffer :: "char list" where
  "new_buffer = replicate FILE_SIZE (CHR 0x00)"

definition memset :: "char list \<Rightarrow> char \<Rightarrow> nat \<Rightarrow> char list" where
  "memset buf c n = replicate n c @ drop n buf"

text \<open>What \<^verbatim>\<open>read\<close> leaves in the buffer: the bytes it returned, then what was there.\<close>

definition store :: "char list \<Rightarrow> char list \<Rightarrow> char list" where
  "store bytes buf = bytes @ drop (length bytes) buf"

text \<open>
  \<^verbatim>\<open>FileCacheImpl::add_cache_entry\<close>. The temporaries of type \<^verbatim>\<open>CacheEntry\<close> that
  \<^verbatim>\<open>make_pair\<close> and \<^verbatim>\<open>insert\<close> destroy have \<^verbatim>\<open>pin_count_ == 1\<close>, so their destructors
  do nothing.
\<close>

definition add_cache_entry :: "string \<Rightarrow> state \<Rightarrow> state" where
  "add_cache_entry file_name s =
     (case sys_open file_name (disk s) of
        (new_fd, st1) \<Rightarrow>
          if new_fd < 0 then
            s\<lparr>disk := report (''Error opening file '' @ file_name) st1\<rparr>
          else
            (case sys_read new_fd FILE_SIZE (sys_lseek new_fd st1) of
               (nbytes, bytes, st2) \<Rightarrow>
                 if nbytes < 0 then
                   s\<lparr>disk := sys_close new_fd
                               (report (''Error reading file '' @ file_name) st2)\<rparr>
                 else
                   s\<lparr>file_cache :=
                        map_insert file_name
                          \<lparr>file_buf = store bytes (memset new_buffer CHR ''0'' FILE_SIZE),
                           pin_count = 1, dirty = False, fd = new_fd\<rparr>
                          (file_cache s),
                      disk := st2\<rparr>))"

text \<open>
  The loop of \<^verbatim>\<open>fill_up_cache\<close> over the names from \<^verbatim>\<open>fnpitr\<close> on; it returns the names
  left in \<^verbatim>\<open>files_not_pinned\<close>.
\<close>

fun fill_loop :: "int \<Rightarrow> string list \<Rightarrow> state \<Rightarrow> state \<times> string list" where
  "fill_loop empty_cache_entries [] s = (s, [])"
| "fill_loop empty_cache_entries (name # rest) s =
     (if empty_cache_entries > 0 then
        (let s' = add_cache_entry name s
         in if rest = [] then (s', [])
            else fill_loop (empty_cache_entries - 1) rest s')
      else (s, name # rest))"

text \<open>
  \<^verbatim>\<open>FileCacheImpl::fill_up_cache\<close>.
  \<^verbatim>\<open>int empty_cache_entries = max_cache_entries_ - file_cache_.size()\<close> is computed in
  \<^verbatim>\<open>size_t\<close> and converted to \<^verbatim>\<open>int\<close>: the low 32 bits of the difference, read as signed.
\<close>

definition fill_up_cache :: "string list \<Rightarrow> state \<Rightarrow> state \<times> string list" where
  "fill_up_cache files_not_pinned s =
     fill_loop (sint (max_cache_entries s - word_of_nat (length (file_cache s))))
       files_not_pinned s"

subsection \<open>PinFiles\<close>

text \<open>The first loop of \<^verbatim>\<open>PinFiles\<close>, over \<^verbatim>\<open>file_vec\<close>.\<close>

fun pin_loop :: "string list \<Rightarrow> table \<Rightarrow> string list \<Rightarrow> table \<times> string list" where
  "pin_loop [] tbl files_not_pinned = (tbl, files_not_pinned)"
| "pin_loop (file_name # rest) tbl files_not_pinned =
     (case map_of tbl file_name of
        Some ce \<Rightarrow>
          pin_loop rest
            (map_modify file_name (\<lambda>ce. ce\<lparr>pin_count := pin_count ce + 1\<rparr>) tbl)
            files_not_pinned
      | None \<Rightarrow> pin_loop rest tbl (set_insert file_name files_not_pinned))"

text \<open>
  The loop after a wait, over \<^verbatim>\<open>files_not_pinned\<close>: a name that became resident is
  pinned and leaves the set.
\<close>

fun claim_loop :: "string list \<Rightarrow> table \<Rightarrow> table \<times> string list" where
  "claim_loop [] tbl = (tbl, [])"
| "claim_loop (name # rest) tbl =
     (case map_of tbl name of
        Some ce \<Rightarrow>
          claim_loop rest (map_modify name (\<lambda>ce. ce\<lparr>pin_count := pin_count ce + 1\<rparr>) tbl)
      | None \<Rightarrow> (case claim_loop rest tbl of (tbl', left) \<Rightarrow> (tbl', name # left)))"

text \<open>
  How a call of \<^verbatim>\<open>PinFiles\<close> leaves the critical section: it returns, it throws
  \<^verbatim>\<open>std::runtime_error\<close>, it waits on the condition variable with the names it has still
  to pin, or its \<^verbatim>\<open>assert\<close> fails.
\<close>

datatype outcome = Returned | Thrown | Waiting "string list" | Aborted

definition unpinned :: "table \<Rightarrow> table" where
  "unpinned tbl = filter (\<lambda>(name, ce). pin_count ce = 0) tbl"

text \<open>
  What the loop of \<^verbatim>\<open>PinFiles\<close> below needs to terminate: claiming and filling never
  add a name or an unpinned entry, and eviction removes an unpinned entry when there is one.
\<close>

lemma unpinned_map_insert:
  "pin_count e \<noteq> 0 \<Longrightarrow> unpinned (map_insert k e tbl) = unpinned tbl"
  by (induction tbl) (auto simp: unpinned_def)

lemma unpinned_add_cache_entry:
  "unpinned (file_cache (add_cache_entry name s)) = unpinned (file_cache s)"
  by (auto simp: add_cache_entry_def unpinned_map_insert split: prod.splits)

lemma fill_loop_unpinned:
  "fill_loop e names s = (s', left) \<Longrightarrow> unpinned (file_cache s') = unpinned (file_cache s)"
  by (induction names arbitrary: e s s' left)
     (auto simp: unpinned_add_cache_entry Let_def split: if_splits)

lemma fill_loop_length:
  "fill_loop e names s = (s', left) \<Longrightarrow> length left \<le> length names"
  by (induction names arbitrary: e s s' left)
     (fastforce simp: Let_def split: if_splits)+

lemma claim_loop_length:
  "claim_loop names tbl = (tbl', left) \<Longrightarrow> length left \<le> length names"
  by (induction names tbl arbitrary: tbl' left rule: claim_loop.induct)
     (fastforce split: option.splits prod.splits)+

lemma claim_loop_same:
  "claim_loop names tbl = (tbl', left) \<Longrightarrow> length left = length names \<Longrightarrow> tbl' = tbl"
proof (induction names tbl arbitrary: tbl' left rule: claim_loop.induct)
  case (1 tbl)
  then show ?case by simp
next
  case (2 name rest tbl)
  show ?case
  proof (cases "map_of tbl name")
    case None
    with 2 show ?thesis by (auto split: prod.splits)
  next
    case (Some ce)
    with 2(3) have "length left \<le> length rest"
      using claim_loop_length by simp
    with 2(4) show ?thesis by simp
  qed
qed

lemma evict_loop_unpinned_le:
  "evict_loop n c tbl st = (kept, st', c') \<Longrightarrow> length (unpinned kept) \<le> length (unpinned tbl)"
  by (induction tbl arbitrary: n c st kept st' c')
     (fastforce simp: unpinned_def Let_def split: if_splits prod.splits)+

lemma evict_loop_unpinned_less:
  "evict_loop n c tbl st = (kept, st', c') \<Longrightarrow> cache_entries_evictable tbl \<Longrightarrow>
   length (unpinned kept) < length (unpinned tbl)"
proof (induction tbl arbitrary: n c st kept st' c')
  case Nil
  then show ?case by simp
next
  case (Cons p rest)
  obtain name ce where p: "p = (name, ce)" by (cases p)
  show ?case
  proof (cases "pin_count ce = 0")
    case True
    have "length (unpinned kept) \<le> length (unpinned rest)"
      using Cons.prems(1) True p evict_loop_unpinned_le
      by (fastforce simp: Let_def split: if_splits)
    with True p show ?thesis by (simp add: unpinned_def)
  next
    case False
    with Cons p show ?thesis
      by (auto simp: unpinned_def split: prod.splits)
  qed
qed

text \<open>
  The loop \<^verbatim>\<open>while (!files_not_pinned.empty())\<close> of \<^verbatim>\<open>PinFiles\<close>, from its head to the
  point where the call leaves the critical section. \<^verbatim>\<open>cv_.wait(lock)\<close> releases the
  lock: the call is suspended (\<open>Waiting\<close>) and is resumed by running the loop again on
  the state it finds when it wakes up. \<^verbatim>\<open>files_not_pinned.size()\<close> is converted to the
  \<^verbatim>\<open>int\<close> parameter of \<^verbatim>\<open>evict_cache_entries\<close>; the \<^verbatim>\<open>assert\<close> compares unsigned values.
\<close>

function wait_loop :: "string list \<Rightarrow> state \<Rightarrow> state \<times> outcome" where
  "wait_loop files_not_pinned s =
     (if files_not_pinned = [] then (s, Returned)
      else if \<not> cache_entries_evictable (file_cache s) then (s, Waiting files_not_pinned)
      else
        (case claim_loop files_not_pinned (file_cache s) of
           (tbl, left) \<Rightarrow>
             if left = [] then (s\<lparr>file_cache := tbl\<rparr>, Returned)
             else
               (case evict_cache_entries (sint (word_of_nat (length left) :: 32 word))
                       (s\<lparr>file_cache := tbl\<rparr>) of
                  (s1, cache_entries_evicted) \<Rightarrow>
                    if \<not> unat cache_entries_evicted \<le> length left then (s1, Aborted)
                    else
                      (case fill_up_cache left s1 of
                         (s2, left') \<Rightarrow> wait_loop left' s2))))"
  by pat_completeness auto
termination
proof (relation "inv_image (less_than <*lex*> less_than)
         (\<lambda>(names, s). (length names, length (unpinned (file_cache s))))", goal_cases)
  case 1
  show ?case by auto
next
  case (2 names s tbl left s1 ev s2 left')
  have l1: "length left \<le> length names"
    using 2(3) [symmetric] by (rule claim_loop_length)
  have l2: "length left' \<le> length left"
    using 2(7) [symmetric] by (auto simp: fill_up_cache_def dest: fill_loop_length)
  have u2: "unpinned (file_cache s2) = unpinned (file_cache s1)"
    using 2(7) [symmetric] by (auto simp: fill_up_cache_def dest: fill_loop_unpinned)
  show ?case
  proof (cases "length left = length names")
    case False
    with l1 l2 show ?thesis by simp
  next
    case True
    with 2(3) [symmetric] have same: "tbl = file_cache s" by (rule claim_loop_same)
    have "cache_entries_evictable tbl"
      using 2(2) same by simp
    then have "length (unpinned (file_cache s1)) < length (unpinned tbl)"
      using 2(5) [symmetric]
      by (auto simp: evict_cache_entries_def split: prod.splits dest: evict_loop_unpinned_less)
    with same u2 l1 l2 show ?thesis by auto
  qed
qed

declare wait_loop.simps [simp del]

text \<open>
  \<^verbatim>\<open>FileCacheImpl::PinFiles\<close>. In \<^verbatim>\<open>file_vec.size() > max_cache_entries_\<close> the \<^verbatim>\<open>int\<close> is
  converted to the unsigned \<^verbatim>\<open>size_t\<close> (64 bits on the platforms the Makefile builds for):
  a negative capacity becomes a value above \<open>2^63\<close>.
\<close>

definition PinFiles :: "string list \<Rightarrow> state \<Rightarrow> state \<times> outcome" where
  "PinFiles file_vec s =
     (if int (length file_vec) > sint (max_cache_entries s) mod 2 ^ 64 then (s, Thrown)
      else
        (case pin_loop file_vec (file_cache s) [] of
           (tbl, files_not_pinned) \<Rightarrow>
             (case fill_up_cache files_not_pinned (s\<lparr>file_cache := tbl\<rparr>) of
                (s1, left) \<Rightarrow>
                  if left = [] then (s1, Returned) else wait_loop left s1)))"

subsection \<open>UnpinFiles and the accessors\<close>

text \<open>The loop of \<^verbatim>\<open>UnpinFiles\<close>; the flag is \<^verbatim>\<open>cache_entry_evictable\<close>.\<close>

fun unpin_loop :: "string list \<Rightarrow> table \<Rightarrow> bool \<Rightarrow> table \<times> bool" where
  "unpin_loop [] tbl cache_entry_evictable = (tbl, cache_entry_evictable)"
| "unpin_loop (file_name # rest) tbl cache_entry_evictable =
     (case map_of tbl file_name of
        None \<Rightarrow> unpin_loop rest tbl cache_entry_evictable
      | Some ce \<Rightarrow>
          unpin_loop rest
            (map_modify file_name (\<lambda>ce. ce\<lparr>pin_count := pin_count ce - 1\<rparr>) tbl)
            (if pin_count ce - 1 = 0 then True else cache_entry_evictable))"

text \<open>
  \<^verbatim>\<open>FileCacheImpl::UnpinFiles\<close>; the second component says whether \<^verbatim>\<open>cv_.notify_all()\<close>
  was called.
\<close>

definition UnpinFiles :: "string list \<Rightarrow> state \<Rightarrow> state \<times> bool" where
  "UnpinFiles file_vec s =
     (case unpin_loop file_vec (file_cache s) False of
        (tbl, notified) \<Rightarrow> (s\<lparr>file_cache := tbl\<rparr>, notified))"

text \<open>\<^verbatim>\<open>FileCacheImpl::FileData\<close>: \<open>None\<close> is \<^verbatim>\<open>nullptr\<close>, otherwise the buffer pointed to.\<close>

definition FileData :: "string \<Rightarrow> state \<Rightarrow> char list option" where
  "FileData file_name s = map_option file_buf (map_of (file_cache s) file_name)"

text \<open>\<^verbatim>\<open>FileCacheImpl::MutableFileData\<close>\<close>

definition MutableFileData :: "string \<Rightarrow> state \<Rightarrow> state \<times> char list option" where
  "MutableFileData file_name s =
     (case map_of (file_cache s) file_name of
        None \<Rightarrow> (s, None)
      | Some ce \<Rightarrow>
          (s\<lparr>file_cache := map_modify file_name (\<lambda>ce. ce\<lparr>dirty := True\<rparr>) (file_cache s)\<rparr>,
           Some (file_buf ce)))"

text \<open>
  A client storing through the pointer \<^verbatim>\<open>MutableFileData\<close> gave it, as
  \<^verbatim>\<open>strncpy(file_wbuf, ...)\<close> in main.cc does: the buffer gets new contents \<open>bytes\<close>, of
  the same length.
\<close>

definition client_write :: "string \<Rightarrow> char list \<Rightarrow> state \<Rightarrow> state" where
  "client_write file_name bytes s =
     s\<lparr>file_cache := map_modify file_name (\<lambda>ce. ce\<lparr>file_buf := bytes\<rparr>) (file_cache s)\<rparr>"

subsection \<open>Destruction of the cache\<close>

text \<open>
  \<^verbatim>\<open>~FileCacheImpl\<close> is implicit: the map is destroyed, which runs \<^verbatim>\<open>~CacheEntry\<close> on every
  entry left in it. The order in which a \<^verbatim>\<open>std::map\<close> destroys its entries is the
  library's; the model takes the order of the keys.
\<close>

definition FileCacheImpl_dtor :: "state \<Rightarrow> storage" where
  "FileCacheImpl_dtor s = fold (\<lambda>(name, ce). CacheEntry_dtor ce) (file_cache s) (disk s)"

subsection \<open>The states the operations reach\<close>

text \<open>
  Every operation holds the mutex from its start to its end, and \<^verbatim>\<open>PinFiles\<close> releases it
  only while it waits. So the states other threads can observe are those between the
  following steps; the second component lists, for every suspended call of \<^verbatim>\<open>PinFiles\<close>,
  the names it has still to pin.
\<close>

fun suspended :: "outcome \<Rightarrow> string list list" where
  "suspended (Waiting names) = [names]"
| "suspended r = []"

inductive reachable :: "state \<Rightarrow> string list list \<Rightarrow> bool" where
  start: "file_cache s = [] \<Longrightarrow> reachable s []"
| pin: "reachable s ws \<Longrightarrow> PinFiles file_vec s = (s', r) \<Longrightarrow> reachable s' (suspended r @ ws)"
| wake: "reachable s ws \<Longrightarrow> names \<in> set ws \<Longrightarrow> wait_loop names s = (s', r) \<Longrightarrow>
         reachable s' (suspended r @ remove1 names ws)"
| unpin: "reachable s ws \<Longrightarrow> UnpinFiles file_vec s = (s', notified) \<Longrightarrow> reachable s' ws"
| data: "reachable s ws \<Longrightarrow> MutableFileData file_name s = (s', buf) \<Longrightarrow> reachable s' ws"
| client: "reachable s ws \<Longrightarrow> length bytes = FILE_SIZE \<Longrightarrow>
           reachable (client_write file_name bytes s) ws"

subsection \<open>The bound on the table\<close>

definition within_capacity :: "state \<Rightarrow> bool" where
  "within_capacity s \<longleftrightarrow> int (length (file_cache s)) \<le> sint (max_cache_entries s)"

subsection \<open>Example states\<close>

text \<open>
  A storage without files on which every call succeeds in full; \<^verbatim>\<open>open\<close> hands out a
  descriptor that was not handed out before.
\<close>

definition calm_storage :: storage where
  "calm_storage =
     \<lparr>files = Map.empty, fdtab = Map.empty, trace = [], errlog = [],
      open_result = (\<lambda>calls name. Some (3 + length calls)),
      read_result = (\<lambda>calls fd. Some FILE_SIZE),
      write_result = (\<lambda>calls fd. Some FILE_SIZE),
      strerror_errno = (\<lambda>calls. ''Input/output error'')\<rparr>"

text \<open>An entry whose buffer holds \<open>FILE_SIZE\<close> copies of one character.\<close>

definition entry :: "char \<Rightarrow> nat \<Rightarrow> bool \<Rightarrow> int \<Rightarrow> CacheEntry" where
  "entry c pins d n = \<lparr>file_buf = replicate FILE_SIZE c, pin_count = word_of_nat pins, dirty = d, fd = n\<rparr>"

text \<open>
  A cache of capacity 3 that is full: \<open>a\<close> is pinned and dirty, \<open>b\<close> unpinned and dirty,
  \<open>c\<close> unpinned and clean.
\<close>

definition three_entries :: state where
  "three_entries =
     \<lparr>max_cache_entries = 3,
      file_cache = [(''a'', entry CHR ''a'' 1 True 3), (''b'', entry CHR ''b'' 0 True 4),
                    (''c'', entry CHR ''c'' 0 False 5)],
      disk = calm_storage\<lparr>files := [''a'' \<mapsto> [], ''b'' \<mapsto> [], ''c'' \<mapsto> []],
                           fdtab := [3 \<mapsto> ''a'', 4 \<mapsto> ''b'', 5 \<mapsto> ''c'']\<rparr>\<rparr>"

text \<open>The same cache on a storage where every \<^verbatim>\<open>write\<close> fails.\<close>

definition failing_writes :: state where
  "failing_writes = three_entries\<lparr>disk := (disk three_entries)\<lparr>write_result := (\<lambda>calls fd. None)\<rparr>\<rparr>"

text \<open>An empty cache of capacity 3 on that storage.\<close>

definition empty_cache :: state where
  "empty_cache = \<lparr>max_cache_entries = 3, file_cache = [], disk = calm_storage\<rparr>"

text \<open>The same with a file \<open>f\<close> of three bytes, and with a storage where every \<^verbatim>\<open>read\<close> fails.\<close>

definition short_file :: state where
  "short_file = empty_cache\<lparr>disk := calm_storage\<lparr>files := [''f'' \<mapsto> ''abc'']\<rparr>\<rparr>"

definition unreadable :: state where
  "unreadable = empty_cache\<lparr>disk := calm_storage\<lparr>read_result := (\<lambda>calls fd. None)\<rparr>\<rparr>"

text \<open>
  A cache of capacity 2 that holds one pinned entry, on a storage where \<^verbatim>\<open>open\<close> fails for
  the file \<open>a\<close> and for no other.
\<close>

definition one_slot_left :: state where
  "one_slot_left =
     \<lparr>max_cache_entries = 2,
      file_cache = [(''x'', entry CHR ''x'' 1 False 3)],
      disk = calm_storage
        \<lparr>files := [''x'' \<mapsto> replicate FILE_SIZE CHR ''x''], fdtab := [3 \<mapsto> ''x''],
         open_result := (\<lambda>calls name. if name = ''a'' then None else Some (4 + length calls))\<rparr>\<rparr>"

text \<open>An empty cache constructed with \<^verbatim>\<open>max_cache_entries == -1\<close>.\<close>

definition negative_capacity :: state where
  "negative_capacity = empty_cache\<lparr>max_cache_entries := - 1\<rparr>"

section \<open>Eviction\<close>

lemma evict_loop_subseq:
  "evict_loop n c tbl st = (kept, st', c') \<Longrightarrow> subseq kept tbl"
  by (induction tbl arbitrary: n c st kept st' c')
     (fastforce simp: Let_def split: if_splits prod.splits)+

lemma evict_loop_pinned:
  "evict_loop n c tbl st = (kept, st', c') \<Longrightarrow> x \<in> set tbl \<Longrightarrow> pin_count (snd x) \<noteq> 0 \<Longrightarrow>
   x \<in> set kept"
  by (induction tbl arbitrary: n c st kept st' c')
     (fastforce simp: Let_def split: if_splits prod.splits)+

lemma evict_loop_count:
  "evict_loop n c tbl st = (kept, st', c') \<Longrightarrow> c' = c + (int (length tbl) - int (length kept))"
  by (induction tbl arbitrary: n c st kept st' c')
     (fastforce simp: Let_def split: if_splits prod.splits)+

lemma evict_loop_bound:
  "evict_loop n c tbl st = (kept, st', c') \<Longrightarrow> c < n \<Longrightarrow> c' \<le> n"
  by (induction tbl arbitrary: n c st kept st' c')
     (fastforce simp: Let_def split: if_splits prod.splits)+

text \<open>
  C1. Whatever the state and the number asked for, \<^verbatim>\<open>evict_cache_entries\<close> only deletes
  entries from the table (what is left is a subsequence of what was there), every entry
  whose pin count is not zero is still there, unchanged, and the value returned is the
  number of entries deleted. When the number asked for is positive, as it is at the call in
  \<^verbatim>\<open>PinFiles\<close>, at most that many entries are deleted.
\<close>

theorem evict_cache_entries_only_unpinned:
  "evict_cache_entries n s = (s', evicted) \<Longrightarrow>
     subseq (file_cache s') (file_cache s) \<and>
     (\<forall>(name, ce) \<in> set (file_cache s). pin_count ce \<noteq> 0 \<longrightarrow> (name, ce) \<in> set (file_cache s')) \<and>
     evicted = word_of_nat (length (file_cache s) - length (file_cache s')) \<and>
     (0 < n \<longrightarrow> int (length (file_cache s) - length (file_cache s')) \<le> n)"
proof -
  assume a: "evict_cache_entries n s = (s', evicted)"
  obtain kept st' c where l: "evict_loop n 0 (file_cache s) (disk s) = (kept, st', c)"
    by (cases "evict_loop n 0 (file_cache s) (disk s)") auto
  with a have s': "file_cache s' = kept" and ev: "evicted = word_of_int c"
    by (auto simp: evict_cache_entries_def)
  have sub: "subseq (file_cache s') (file_cache s)"
    using l s' by (auto dest: evict_loop_subseq)
  have pinned: "\<forall>(name, ce) \<in> set (file_cache s). pin_count ce \<noteq> 0 \<longrightarrow> (name, ce) \<in> set (file_cache s')"
    using l s' by (auto dest: evict_loop_pinned)
  have le: "length (file_cache s') \<le> length (file_cache s)"
    using sub by (metis list_emb_length)
  have c: "c = int (length (file_cache s) - length (file_cache s'))"
    using evict_loop_count [OF l] s' le by simp
  have bound: "0 < n \<longrightarrow> int (length (file_cache s) - length (file_cache s')) \<le> n"
    using evict_loop_bound [OF l] c by simp
  from sub pinned ev c bound show ?thesis by simp
qed

theorem evict_cache_entries_only_unpinned_witness:
  "file_cache (fst (evict_cache_entries 1 three_entries)) =
     [(''a'', entry CHR ''a'' 1 True 3), (''c'', entry CHR ''c'' 0 False 5)] \<and>
   snd (evict_cache_entries 1 three_entries) = 1"
  using evict_cache_entries_only_unpinned
    [of 1 three_entries "fst (evict_cache_entries 1 three_entries)"
        "snd (evict_cache_entries 1 three_entries)"]
  by (simp add: evict_cache_entries_def three_entries_def entry_def CacheEntry_dtor_def)

subsection \<open>The system calls of an eviction\<close>

lemma trace_flush:
  "trace (flush msg ce st) = trace st @ [Lseek (fd ce), Write (fd ce) (file_buf ce)]"
  by (simp add: flush_def sys_write_def sys_lseek_def issue_def report_def Let_def
      split: option.splits)

lemma trace_CacheEntry_dtor:
  "trace (CacheEntry_dtor ce st) =
     trace st @
       (if pin_count ce = 0 then
          (if dirty ce then [Lseek (fd ce), Write (fd ce) (file_buf ce)] else []) @ [Close (fd ce)]
        else [])"
  by (simp add: CacheEntry_dtor_def trace_flush sys_close_def issue_def)

lemma subseq_set_mono: "subseq xs ys \<Longrightarrow> x \<in> set xs \<Longrightarrow> x \<in> set ys"
  using list_emb_set [of "(=)" xs ys x] by auto

lemma filter_kept_skip:
  "p \<notin> set rest \<Longrightarrow>
   filter (\<lambda>x. x \<notin> set (p # kept)) (p # rest) = filter (\<lambda>x. x \<notin> set kept) rest"
  by (induction rest) auto

lemma filter_kept_evicted:
  "p \<notin> set rest \<Longrightarrow> subseq kept rest \<Longrightarrow>
   filter (\<lambda>x. x \<notin> set kept) (p # rest) = p # filter (\<lambda>x. x \<notin> set kept) rest"
  using subseq_set_mono [of kept rest p] by auto

lemma evict_loop_trace:
  "evict_loop n c tbl st = (kept, st', c') \<Longrightarrow> distinct (map fst tbl) \<Longrightarrow>
   trace st' = trace st @
     concat (map (\<lambda>(name, ce).
                    if dirty ce then
                      [Lseek (fd ce), Write (fd ce) (file_buf ce),
                       Lseek (fd ce), Write (fd ce) (file_buf ce), Close (fd ce)]
                    else [Close (fd ce)])
              (filter (\<lambda>x. x \<notin> set kept) tbl))"
proof (induction tbl arbitrary: n c st kept st' c')
  case Nil
  then show ?case by simp
next
  case (Cons p rest)
  obtain name ce where p: "p = (name, ce)" by (cases p)
  have notin: "p \<notin> set rest"
    using Cons.prems(2) p by (force simp: image_iff)
  have dist: "distinct (map fst rest)"
    using Cons.prems(2) by simp
  show ?case
  proof (cases "pin_count ce = 0")
    case True
    define st2 where "st2 = CacheEntry_dtor ce
                  (if dirty ce then flush (''Error writing file '' @ name) ce st else st)"
    have tr2: "trace st2 = trace st @
                 (if dirty ce then
                    [Lseek (fd ce), Write (fd ce) (file_buf ce),
                     Lseek (fd ce), Write (fd ce) (file_buf ce), Close (fd ce)]
                  else [Close (fd ce)])"
      using True by (simp add: st2_def trace_CacheEntry_dtor trace_flush)
    have step: "evict_loop n c (p # rest) st =
                  (if c + 1 = n then (rest, st2, c + 1) else evict_loop n (c + 1) rest st2)"
      using True by (simp add: p st2_def Let_def)
    show ?thesis
    proof (cases "c + 1 = n")
      case stop: True
      with Cons.prems(1) step have k: "kept = rest" and s: "st' = st2"
        by simp_all
      have "filter (\<lambda>x. x \<notin> set kept) (p # rest) = [p]"
        using k notin by simp
      then show ?thesis by (simp add: s tr2 p)
    next
      case go: False
      with Cons.prems(1) step have l: "evict_loop n (c + 1) rest st2 = (kept, st', c')"
        by simp
      have "subseq kept rest" using l by (rule evict_loop_subseq)
      with notin have f: "filter (\<lambda>x. x \<notin> set kept) (p # rest) =
                            p # filter (\<lambda>x. x \<notin> set kept) rest"
        by (rule filter_kept_evicted)
      show ?thesis
        unfolding f Cons.IH [OF l dist] by (simp add: tr2 p)
    qed
  next
    case False
    obtain kept0 where l: "evict_loop n c rest st = (kept0, st', c')" and k: "kept = p # kept0"
      using Cons.prems(1) False p by (auto split: prod.splits)
    show ?thesis
      unfolding k filter_kept_skip [OF notin] by (rule Cons.IH [OF l dist])
  qed
qed

text \<open>
  C10. The calls \<^verbatim>\<open>evict_cache_entries\<close> issues are, for every entry it removes and in
  the order of removal: for a dirty entry a seek and a write of the whole buffer by the
  loop, a second seek and write of the same buffer by the destructor that \<^verbatim>\<open>erase\<close> runs
  (the loop leaves \<^verbatim>\<open>dirty_\<close> set), and the \<^verbatim>\<open>close\<close>; for a clean entry the \<^verbatim>\<open>close\<close>
  alone. The keys of a \<^verbatim>\<open>std::map\<close> are distinct.
\<close>

theorem evicted_dirty_entry_written_twice:
  "distinct (map fst (file_cache s)) \<Longrightarrow> evict_cache_entries n s = (s', evicted) \<Longrightarrow>
   trace (disk s') = trace (disk s) @
     concat (map (\<lambda>(name, ce).
                    if dirty ce then
                      [Lseek (fd ce), Write (fd ce) (file_buf ce),
                       Lseek (fd ce), Write (fd ce) (file_buf ce), Close (fd ce)]
                    else [Close (fd ce)])
              (filter (\<lambda>x. x \<notin> set (file_cache s')) (file_cache s)))"
proof -
  assume d: "distinct (map fst (file_cache s))" and e: "evict_cache_entries n s = (s', evicted)"
  obtain kept st' c where l: "evict_loop n 0 (file_cache s) (disk s) = (kept, st', c)"
    by (cases "evict_loop n 0 (file_cache s) (disk s)") auto
  with e have "file_cache s' = kept" and "disk s' = st'"
    by (auto simp: evict_cache_entries_def)
  with evict_loop_trace [OF l d] show ?thesis by simp
qed

lemma three_entries_evict_1:
  "evict_cache_entries 1 three_entries =
     (three_entries
        \<lparr>file_cache := [(''a'', entry CHR ''a'' 1 True 3), (''c'', entry CHR ''c'' 0 False 5)],
         disk := CacheEntry_dtor (entry CHR ''b'' 0 True 4)
                   (flush ''Error writing file b'' (entry CHR ''b'' 0 True 4) (disk three_entries))\<rparr>,
      1)"
  by (simp add: evict_cache_entries_def three_entries_def entry_def)

theorem evicted_dirty_entry_written_twice_witness:
  "distinct (map fst (file_cache three_entries)) \<and>
   trace (disk (fst (evict_cache_entries 1 three_entries))) =
     [Lseek 4, Write 4 (replicate FILE_SIZE CHR ''b''),
      Lseek 4, Write 4 (replicate FILE_SIZE CHR ''b''), Close 4]"
proof -
  have d: "distinct (map fst (file_cache three_entries))"
    by (simp add: three_entries_def)
  show ?thesis
    unfolding three_entries_evict_1 fst_conv
    using evicted_dirty_entry_written_twice [OF d three_entries_evict_1]
    by (simp add: three_entries_def entry_def calm_storage_def)
qed

subsection \<open>A write that fails\<close>

lemma errlog_flush:
  "errlog (flush msg ce st) = errlog st \<or> (\<exists>err. errlog (flush msg ce st) = errlog st @ [msg @ '' : '' @ err])"
  by (simp add: flush_def sys_write_def sys_lseek_def issue_def report_def Let_def
      split: option.splits)

lemma errlog_flush_mono: "set (errlog st) \<subseteq> set (errlog (flush msg ce st))"
  using errlog_flush [of msg ce st] by auto

lemma errlog_CacheEntry_dtor_mono: "set (errlog st) \<subseteq> set (errlog (CacheEntry_dtor ce st))"
  using errlog_flush_mono [of st "''Error writing file ''" ce]
  by (simp add: CacheEntry_dtor_def sys_close_def issue_def)

lemma evict_loop_errlog_mono:
  "evict_loop n c tbl st = (kept, st', c') \<Longrightarrow> set (errlog st) \<subseteq> set (errlog st')"
proof (induction tbl arbitrary: n c st kept st' c')
  case Nil
  then show ?case by simp
next
  case (Cons p rest)
  obtain name ce where p: "p = (name, ce)" by (cases p)
  show ?case
  proof (cases "pin_count ce = 0")
    case True
    define st1 where "st1 = (if dirty ce then flush (''Error writing file '' @ name) ce st else st)"
    define st2 where "st2 = CacheEntry_dtor ce st1"
    have "set (errlog st) \<subseteq> set (errlog st1)"
      unfolding st1_def using errlog_flush_mono [of st _ ce] by (cases "dirty ce") simp_all
    moreover have "set (errlog st1) \<subseteq> set (errlog st2)"
      unfolding st2_def by (rule errlog_CacheEntry_dtor_mono)
    ultimately have m: "set (errlog st) \<subseteq> set (errlog st2)"
      by (rule order_trans)
    have step: "evict_loop n c (p # rest) st =
                  (if c + 1 = n then (rest, st2, c + 1) else evict_loop n (c + 1) rest st2)"
      using True by (simp add: p st1_def st2_def Let_def)
    show ?thesis
    proof (cases "c + 1 = n")
      case True
      with Cons.prems step have "st' = st2" by simp
      with m show ?thesis by simp
    next
      case False
      with Cons.prems step have "evict_loop n (c + 1) rest st2 = (kept, st', c')" by simp
      from Cons.IH [OF this] have "set (errlog st2) \<subseteq> set (errlog st')" .
      with m show ?thesis by (rule order_trans)
    qed
  next
    case False
    then obtain kept0 where "evict_loop n c rest st = (kept0, st', c')"
      using Cons.prems p by (auto split: prod.splits)
    from Cons.IH [OF this] show ?thesis .
  qed
qed

lemma evict_loop_append:
  "evict_loop n c xs st = (kx, stx, cx) \<Longrightarrow> cx < n \<Longrightarrow>
   evict_loop n c (xs @ ys) st =
     (case evict_loop n cx ys stx of (ky, sty, cy) \<Rightarrow> (kx @ ky, sty, cy))"
proof (induction xs arbitrary: c st kx stx cx)
  case Nil
  then show ?case by (simp add: case_prod_beta)
next
  case (Cons p rest)
  obtain name ce where p: "p = (name, ce)" by (cases p)
  show ?case
  proof (cases "pin_count ce = 0")
    case True
    define st2 where "st2 = CacheEntry_dtor ce
                  (if dirty ce then flush (''Error writing file '' @ name) ce st else st)"
    have step: "evict_loop n c (p # zs) st =
                  (if c + 1 = n then (zs, st2, c + 1) else evict_loop n (c + 1) zs st2)" for zs
      using True by (simp add: p st2_def Let_def)
    have go: "c + 1 \<noteq> n"
    proof
      assume "c + 1 = n"
      with Cons.prems(1) step [of rest] have "cx = n" by simp
      with Cons.prems(2) show False by simp
    qed
    with Cons.prems(1) step [of rest] have "evict_loop n (c + 1) rest st2 = (kx, stx, cx)"
      by simp
    from Cons.IH [OF this Cons.prems(2)] go step [of "rest @ ys"] show ?thesis
      by simp
  next
    case False
    obtain kept0 where l: "evict_loop n c rest st = (kept0, stx, cx)" and k: "kx = p # kept0"
      using Cons.prems(1) False p by (auto split: prod.splits)
    from Cons.IH [OF l Cons.prems(2)] False show ?thesis
      by (simp add: p k case_prod_beta)
  qed
qed

lemma flush_failed:
  "fst (sys_write (fd ce) (file_buf ce) (sys_lseek (fd ce) st)) < 0 \<Longrightarrow>
   errlog (flush msg ce st) =
     errlog st @
       [msg @ '' : '' @ strerror_errno st (trace st @ [Lseek (fd ce), Write (fd ce) (file_buf ce)])]"
  by (auto simp: flush_def sys_write_def sys_lseek_def issue_def report_def Let_def
      split: option.splits)

lemma subseq_keys: "subseq xs ys \<Longrightarrow> k \<notin> fst ` set ys \<Longrightarrow> k \<notin> fst ` set xs"
  using subseq_set_mono [of xs ys] by (auto simp: image_iff)

lemma subseq_length: "subseq xs ys \<Longrightarrow> length xs \<le> length ys"
  using list_emb_length [of "(=)" xs ys] by simp

text \<open>
  C9. Let \<open>(name, ce)\<close> be an unpinned dirty entry of the table, let the loop of
  \<^verbatim>\<open>evict_cache_entries\<close> have gone through the entries before it without having evicted
  the number asked for, so that it goes on to this entry, and let \<open>st\<close> be the storage it
  has then. If the \<^verbatim>\<open>write\<close> the loop issues for the entry returns a negative value, the
  eviction still removes the entry (afterwards no entry is resident under \<open>name\<close> and the
  table is shorter), and the line \<^verbatim>\<open>Error writing file <name> : <strerror>\<close> of that failure
  is in the error log.
\<close>

theorem eviction_survives_write_failure:
  "file_cache s = before @ (name, ce) # after \<Longrightarrow>
   distinct (map fst (file_cache s)) \<Longrightarrow>
   pin_count ce = 0 \<Longrightarrow> dirty ce \<Longrightarrow>
   evict_loop n 0 before (disk s) = (kept, st, k) \<Longrightarrow> k < n \<Longrightarrow>
   fst (sys_write (fd ce) (file_buf ce) (sys_lseek (fd ce) st)) < 0 \<Longrightarrow>
   evict_cache_entries n s = (s', evicted) \<Longrightarrow>
     map_of (file_cache s') name = None \<and>
     length (file_cache s') < length (file_cache s) \<and>
     (''Error writing file '' @ name @ '' : '' @
        strerror_errno st (trace st @ [Lseek (fd ce), Write (fd ce) (file_buf ce)]))
       \<in> set (errlog (disk s'))"
proof -
  assume tbl: "file_cache s = before @ (name, ce) # after"
    and dist: "distinct (map fst (file_cache s))"
    and unp: "pin_count ce = 0" and dirty: "dirty ce"
    and pre: "evict_loop n 0 before (disk s) = (kept, st, k)" and k: "k < n"
    and fails: "fst (sys_write (fd ce) (file_buf ce) (sys_lseek (fd ce) st)) < 0"
    and ev: "evict_cache_entries n s = (s', evicted)"
  define line where "line = ''Error writing file '' @ name @ '' : '' @
        strerror_errno st (trace st @ [Lseek (fd ce), Write (fd ce) (file_buf ce)])"
  define st1 where "st1 = flush (''Error writing file '' @ name) ce st"
  define st2 where "st2 = CacheEntry_dtor ce st1"
  obtain ky sty cy where r: "evict_loop n k ((name, ce) # after) st = (ky, sty, cy)"
    by (cases "evict_loop n k ((name, ce) # after) st")
  have step: "evict_loop n k ((name, ce) # after) st =
                (if k + 1 = n then (after, st2, k + 1) else evict_loop n (k + 1) after st2)"
    using unp dirty by (simp add: st1_def st2_def Let_def)
  have "line \<in> set (errlog st1)"
    unfolding st1_def line_def flush_failed [OF fails] by simp
  then have in2: "line \<in> set (errlog st2)"
    unfolding st2_def using errlog_CacheEntry_dtor_mono [of st1 ce] by blast
  have rest: "subseq ky after \<and> line \<in> set (errlog sty)"
  proof (cases "k + 1 = n")
    case True
    with r step in2 show ?thesis by simp
  next
    case False
    with r step have l: "evict_loop n (k + 1) after st2 = (ky, sty, cy)" by simp
    from evict_loop_subseq [OF l] evict_loop_errlog_mono [OF l] in2 show ?thesis by blast
  qed
  have whole: "evict_loop n 0 (file_cache s) (disk s) = (kept @ ky, sty, cy)"
    unfolding tbl evict_loop_append [OF pre k] r by simp
  with ev have s': "file_cache s' = kept @ ky" "disk s' = sty"
    by (auto simp: evict_cache_entries_def)
  have sk: "subseq kept before"
    using pre by (rule evict_loop_subseq)
  have "name \<notin> fst ` set before" "name \<notin> fst ` set after"
    using dist unfolding tbl by auto
  then have "name \<notin> fst ` set kept" "name \<notin> fst ` set ky"
    using subseq_keys [OF sk] subseq_keys [of ky "after"] rest by simp_all
  then have gone: "map_of (file_cache s') name = None"
    unfolding s' by (simp add: map_of_eq_None_iff)
  have "length kept \<le> length before" "length ky \<le> length after"
    using subseq_length [OF sk] subseq_length [of ky "after"] rest by simp_all
  then have less: "length (file_cache s') < length (file_cache s)"
    unfolding s' tbl by simp
  from gone less rest show ?thesis
    unfolding s' line_def by simp
qed

lemma failing_writes_split:
  "file_cache failing_writes =
     [(''a'', entry CHR ''a'' 1 True 3)] @
     (''b'', entry CHR ''b'' 0 True 4) # [(''c'', entry CHR ''c'' 0 False 5)]"
  by (simp add: failing_writes_def three_entries_def)

lemma failing_writes_distinct: "distinct (map fst (file_cache failing_writes))"
  by (simp add: failing_writes_def three_entries_def)

lemma failing_writes_before:
  "evict_loop 1 0 [(''a'', entry CHR ''a'' 1 True 3)] (disk failing_writes) =
     ([(''a'', entry CHR ''a'' 1 True 3)], disk failing_writes, 0)"
  by (simp add: entry_def)

lemma failing_writes_write:
  "fst (sys_write (fd (entry CHR ''b'' 0 True 4)) (file_buf (entry CHR ''b'' 0 True 4))
         (sys_lseek (fd (entry CHR ''b'' 0 True 4)) (disk failing_writes))) < 0"
  by (simp add: entry_def failing_writes_def three_entries_def calm_storage_def
      sys_write_def sys_lseek_def issue_def)

lemma failing_writes_strerror:
  "strerror_errno (disk failing_writes) calls = ''Input/output error''"
  by (simp add: failing_writes_def three_entries_def calm_storage_def)

lemma failing_writes_evict_1:
  "evict_cache_entries 1 failing_writes =
     (failing_writes
        \<lparr>file_cache := [(''a'', entry CHR ''a'' 1 True 3), (''c'', entry CHR ''c'' 0 False 5)],
         disk := CacheEntry_dtor (entry CHR ''b'' 0 True 4)
                   (flush ''Error writing file b'' (entry CHR ''b'' 0 True 4) (disk failing_writes))\<rparr>,
      1)"
  by (simp add: evict_cache_entries_def failing_writes_def three_entries_def entry_def)

theorem eviction_survives_write_failure_witness:
  "map_of (file_cache failing_writes) ''b'' = Some (entry CHR ''b'' 0 True 4) \<and>
   fst (sys_write 4 (replicate FILE_SIZE CHR ''b'') (sys_lseek 4 (disk failing_writes))) < 0 \<and>
   map_of (file_cache (fst (evict_cache_entries 1 failing_writes))) ''b'' = None \<and>
   ''Error writing file b : Input/output error''
     \<in> set (errlog (disk (fst (evict_cache_entries 1 failing_writes))))"
proof -
  have unp: "pin_count (entry CHR ''b'' 0 True 4) = 0" and dirty: "dirty (entry CHR ''b'' 0 True 4)"
    by (simp_all add: entry_def)
  note c = eviction_survives_write_failure
             [OF failing_writes_split failing_writes_distinct unp dirty failing_writes_before
                 zero_less_one failing_writes_write failing_writes_evict_1,
              unfolded failing_writes_strerror]
  have b: "map_of (file_cache failing_writes) ''b'' = Some (entry CHR ''b'' 0 True 4)"
    by (simp add: failing_writes_def three_entries_def)
  have w: "fst (sys_write 4 (replicate FILE_SIZE CHR ''b'') (sys_lseek 4 (disk failing_writes))) < 0"
    using failing_writes_write by (simp add: entry_def)
  have gone: "map_of (file_cache (fst (evict_cache_entries 1 failing_writes))) ''b'' = None"
    unfolding failing_writes_evict_1 fst_conv using c by (rule conjunct1)
  have "(''Error writing file '' @ ''b'' @ '' : '' @ ''Input/output error'')
          \<in> set (errlog (disk (fst (evict_cache_entries 1 failing_writes))))"
    unfolding failing_writes_evict_1 fst_conv using c by (rule conjunct2 [THEN conjunct2])
  then have "''Error writing file b : Input/output error''
               \<in> set (errlog (disk (fst (evict_cache_entries 1 failing_writes))))"
    by (simp only: append.simps)
  with b w gone show ?thesis by (intro conjI)
qed

section \<open>Creating an entry\<close>

lemma sys_read_length:
  "sys_read d count st = (nbytes, bytes, st2) \<Longrightarrow> 0 \<le> nbytes \<Longrightarrow>
   nbytes = int (length bytes) \<and> length bytes \<le> count"
  by (auto simp: sys_read_def Let_def split: option.splits)

lemma fresh_buffer: "memset new_buffer c FILE_SIZE = replicate FILE_SIZE c"
  by (simp add: memset_def new_buffer_def)

lemma length_store: "length bytes \<le> length buf \<Longrightarrow> length (store bytes buf) = length buf"
  by (simp add: store_def)

lemma take_store: "take (length bytes) (store bytes buf) = bytes"
  by (simp add: store_def)

lemma errlog_sys: 
  "errlog (snd (sys_open name st)) = errlog st"
  "errlog (sys_lseek d st) = errlog st"
  "errlog (snd (snd (sys_read d count st))) = errlog st"
  "errlog (sys_close d st) = errlog st"
  by (simp_all add: sys_open_def sys_lseek_def sys_read_def sys_close_def issue_def Let_def
      split: option.splits)

text \<open>
  C5, as amended. \<^verbatim>\<open>add_cache_entry\<close> fails when \<^verbatim>\<open>open\<close> returns a negative value or
  \<^verbatim>\<open>read\<close> does: then no entry is inserted, the table is unchanged and one line is added
  to the error log. A \<^verbatim>\<open>read\<close> that returns fewer than \<open>FILE_SIZE\<close> bytes but not a negative
  value is not a failure: the entry is inserted with pin count 1. The theorem gives the
  entry in full: it is clean, holds the descriptor that \<^verbatim>\<open>open\<close> returned, and its buffer has
  \<open>FILE_SIZE\<close> bytes, the first of which are the bytes read; nothing is logged.
\<close>

theorem add_cache_entry_failure:
  "sys_open file_name (disk s) = (new_fd, st1) \<Longrightarrow>
   sys_read new_fd FILE_SIZE (sys_lseek new_fd st1) = (nbytes, bytes, st2) \<Longrightarrow>
   (if new_fd < 0 \<or> nbytes < 0 then
      file_cache (add_cache_entry file_name s) = file_cache s \<and>
      (\<exists>err. errlog (disk (add_cache_entry file_name s)) =
         errlog (disk s) @
           [(if new_fd < 0 then ''Error opening file '' else ''Error reading file '') @
            file_name @ '' : '' @ err])
    else
      (\<exists>ce. file_cache (add_cache_entry file_name s) = map_insert file_name ce (file_cache s) \<and>
            pin_count ce = 1 \<and> dirty ce = False \<and> fd ce = new_fd \<and>
            length (file_buf ce) = FILE_SIZE \<and> take (length bytes) (file_buf ce) = bytes) \<and>
      errlog (disk (add_cache_entry file_name s)) = errlog (disk s))"
proof -
  assume o: "sys_open file_name (disk s) = (new_fd, st1)"
    and r: "sys_read new_fd FILE_SIZE (sys_lseek new_fd st1) = (nbytes, bytes, st2)"
  have e1: "errlog st1 = errlog (disk s)"
    using errlog_sys(1) [of file_name "disk s"] o by simp
  have e2: "errlog st2 = errlog (disk s)"
    using errlog_sys(3) [of new_fd FILE_SIZE "sys_lseek new_fd st1"] r e1
    by (simp add: errlog_sys(2))
  show ?thesis
  proof (cases "new_fd < 0")
    case True
    then show ?thesis
      using o e1 by (simp add: add_cache_entry_def report_def)
  next
    case nonneg: False
    show ?thesis
    proof (cases "nbytes < 0")
      case True
      then show ?thesis
        using o r nonneg e2 by (simp add: add_cache_entry_def report_def errlog_sys(4))
    next
      case False
      define ce where "ce = \<lparr>file_buf = store bytes (memset new_buffer CHR ''0'' FILE_SIZE),
                               pin_count = 1, dirty = False, fd = new_fd\<rparr>"
      have l: "length bytes \<le> FILE_SIZE"
        using sys_read_length [OF r] False by simp
      have a: "file_cache (add_cache_entry file_name s) = map_insert file_name ce (file_cache s)"
        and e: "errlog (disk (add_cache_entry file_name s)) = errlog (disk s)"
        using o r nonneg False e2 by (simp_all add: add_cache_entry_def ce_def)
      have "pin_count ce = 1" "dirty ce = False" "fd ce = new_fd"
        "length (file_buf ce) = FILE_SIZE" "take (length bytes) (file_buf ce) = bytes"
        using l by (simp_all add: ce_def length_store take_store fresh_buffer)
      with a e nonneg False show ?thesis by auto
    qed
  qed
qed

lemma short_file_open:
  "sys_open ''f'' (disk short_file) =
     (3, calm_storage\<lparr>files := [''f'' \<mapsto> ''abc''], fdtab := [3 \<mapsto> ''f''], trace := [Open ''f'']\<rparr>)"
  by (simp add: short_file_def empty_cache_def calm_storage_def sys_open_def issue_def)

lemma short_file_read:
  "sys_read 3 FILE_SIZE
     (sys_lseek 3 (calm_storage\<lparr>files := [''f'' \<mapsto> ''abc''], fdtab := [3 \<mapsto> ''f''],
                                trace := [Open ''f'']\<rparr>)) =
     (3, ''abc'',
      calm_storage\<lparr>files := [''f'' \<mapsto> ''abc''], fdtab := [3 \<mapsto> ''f''],
                    trace := [Open ''f'', Lseek 3, Read 3]\<rparr>)"
  by (simp add: calm_storage_def sys_read_def sys_lseek_def issue_def contents_def FILE_SIZE_def Let_def)

lemma short_file_add:
  "file_cache (add_cache_entry ''f'' short_file) =
     [(''f'', \<lparr>file_buf = ''abc'' @ replicate (FILE_SIZE - 3) CHR ''0'',
               pin_count = 1, dirty = False, fd = 3\<rparr>)]"
  by (simp add: add_cache_entry_def short_file_open short_file_read fresh_buffer store_def)
     (simp add: short_file_def empty_cache_def FILE_SIZE_def)

lemma unreadable_open:
  "sys_open ''f'' (disk unreadable) =
     (3, calm_storage\<lparr>files := [''f'' \<mapsto> []], fdtab := [3 \<mapsto> ''f''], trace := [Open ''f''],
                      read_result := (\<lambda>calls fd. None)\<rparr>)"
  by (simp add: unreadable_def empty_cache_def calm_storage_def sys_open_def issue_def)

lemma unreadable_read:
  "sys_read 3 FILE_SIZE
     (sys_lseek 3 (calm_storage\<lparr>files := [''f'' \<mapsto> []], fdtab := [3 \<mapsto> ''f''], trace := [Open ''f''],
                      read_result := (\<lambda>calls fd. None)\<rparr>)) =
     (- 1, [],
      calm_storage\<lparr>files := [''f'' \<mapsto> []], fdtab := [3 \<mapsto> ''f''], 
                    trace := [Open ''f'', Lseek 3, Read 3], read_result := (\<lambda>calls fd. None)\<rparr>)"
  by (simp add: calm_storage_def sys_read_def sys_lseek_def issue_def contents_def Let_def)

theorem add_cache_entry_failure_witness:
  "file_cache (add_cache_entry ''f'' unreadable) = [] \<and>
   errlog (disk (add_cache_entry ''f'' unreadable)) = [''Error reading file f : Input/output error''] \<and>
   map (\<lambda>(name, ce). (name, pin_count ce, dirty ce, fd ce))
     (file_cache (add_cache_entry ''f'' short_file)) = [(''f'', 1, False, 3)]"
proof -
  have l: "errlog (disk (add_cache_entry ''f'' unreadable)) =
             [''Error reading file f : Input/output error'']"
    using unreadable_open unreadable_read
    by (simp add: add_cache_entry_def report_def sys_close_def issue_def calm_storage_def)
  have u: "file_cache (add_cache_entry ''f'' unreadable) = []"
    using add_cache_entry_failure [OF unreadable_open unreadable_read]
    by (simp add: unreadable_def empty_cache_def)
  have "file_cache short_file = []"
    by (simp add: short_file_def empty_cache_def)
  with add_cache_entry_failure [OF short_file_open short_file_read]
  obtain ce where "file_cache (add_cache_entry ''f'' short_file) = [(''f'', ce)]"
    and "pin_count ce = 1" "dirty ce = False" "fd ce = 3"
    by auto
  with l u show ?thesis by simp
qed

text \<open>
  C5 as stated fails: the file \<open>f\<close> holds three bytes, \<^verbatim>\<open>read\<close> returns 3, which is less
  than \<open>FILE_SIZE\<close>, and the entry is inserted all the same.
\<close>

theorem partial_read_inserts_entry:
  "fst (sys_read 3 FILE_SIZE (sys_lseek 3 (snd (sys_open ''f'' (disk short_file))))) = 3 \<and>
   (3 :: int) < int FILE_SIZE \<and>
   file_cache short_file = [] \<and>
   file_cache (add_cache_entry ''f'' short_file) =
     [(''f'', \<lparr>file_buf = ''abc'' @ replicate (FILE_SIZE - 3) CHR ''0'',
               pin_count = 1, dirty = False, fd = 3\<rparr>)]"
  by (simp add: short_file_open short_file_read short_file_add)
     (simp add: short_file_def empty_cache_def FILE_SIZE_def)

text \<open>
  C3. A file that does not exist is created by \<^verbatim>\<open>open\<close> with no bytes in it, and
  \<^verbatim>\<open>add_cache_entry\<close> writes nothing to it; the buffer of the new entry holds \<open>FILE_SIZE\<close>
  copies of the character \<open>0\<close> (\<^verbatim>\<open>memset(buf.get(), '0', FILE_SIZE)\<close>), not zero bytes. The
  file is still empty after the entry was unpinned and the cache destroyed.
\<close>

lemma empty_cache_add:
  "add_cache_entry ''f'' empty_cache =
     empty_cache
       \<lparr>file_cache := [(''f'', \<lparr>file_buf = replicate FILE_SIZE CHR ''0'', pin_count = 1,
                                 dirty = False, fd = 3\<rparr>)],
        disk := calm_storage\<lparr>files := [''f'' \<mapsto> []], fdtab := [3 \<mapsto> ''f''],
                              trace := [Open ''f'', Lseek 3, Read 3]\<rparr>\<rparr>"
  by (simp add: add_cache_entry_def empty_cache_def calm_storage_def sys_open_def sys_lseek_def
      sys_read_def issue_def contents_def fresh_buffer store_def Let_def)

lemma empty_cache_pin:
  "PinFiles [''f''] empty_cache = (add_cache_entry ''f'' empty_cache, Returned)"
proof -
  have same: "empty_cache\<lparr>file_cache := []\<rparr> = empty_cache"
    by (simp add: empty_cache_def)
  have "sint (max_cache_entries empty_cache - word_of_nat (length (file_cache empty_cache))) = 3"
    by (simp add: empty_cache_def)
  then have "fill_up_cache [''f''] empty_cache = (add_cache_entry ''f'' empty_cache, [])"
    by (simp add: fill_up_cache_def)
  then have fill: "fill_up_cache [''f''] (empty_cache\<lparr>file_cache := []\<rparr>) =
                     (add_cache_entry ''f'' empty_cache, [])"
    unfolding same .
  have chk: "\<not> int (length [''f'']) > sint (max_cache_entries empty_cache) mod 2 ^ 64"
    by (simp add: empty_cache_def)
  have tbl: "file_cache empty_cache = []"
    by (simp add: empty_cache_def)
  show ?thesis
    unfolding PinFiles_def tbl using chk by (simp add: fill)
qed

theorem absent_file_created_empty:
  "files (disk empty_cache) ''f'' = None \<and>
   PinFiles [''f''] empty_cache = (add_cache_entry ''f'' empty_cache, Returned) \<and>
   files (disk (add_cache_entry ''f'' empty_cache)) ''f'' = Some [] \<and>
   FileData ''f'' (add_cache_entry ''f'' empty_cache) = Some (replicate FILE_SIZE CHR ''0'') \<and>
   replicate FILE_SIZE CHR ''0'' \<noteq> replicate FILE_SIZE (CHR 0x00) \<and>
   files (FileCacheImpl_dtor (fst (UnpinFiles [''f''] (add_cache_entry ''f'' empty_cache)))) ''f'' =
     Some []"
  by (simp add: empty_cache_pin empty_cache_add)
     (simp add: empty_cache_def calm_storage_def FileData_def UnpinFiles_def FileCacheImpl_dtor_def
        CacheEntry_dtor_def sys_close_def issue_def FILE_SIZE_def)

section \<open>The fill phase\<close>

lemma fill_loop_fold:
  "fill_loop e names s =
     (fold add_cache_entry (take (min (length names) (nat e)) names) s,
      drop (min (length names) (nat e)) names)"
proof (induction names arbitrary: e s)
  case Nil
  show ?case by simp
next
  case (Cons name rest)
  show ?case
  proof (cases "e > 0")
    case True
    then have n: "nat e = Suc (nat (e - 1))" by simp
    show ?thesis
    proof (cases "rest = []")
      case True
      with \<open>e > 0\<close> n show ?thesis by (simp add: Let_def)
    next
      case False
      with \<open>e > 0\<close> have "fill_loop e (name # rest) s = fill_loop (e - 1) rest (add_cache_entry name s)"
        by (simp add: Let_def)
      then show ?thesis
        unfolding Cons.IH n by simp
    qed
  next
    case False
    then show ?thesis by simp
  qed
qed

lemma one_slot_left_add:
  "add_cache_entry ''a'' one_slot_left =
     one_slot_left\<lparr>disk := (disk one_slot_left)
        \<lparr>trace := [Open ''a''], errlog := [''Error opening file a : Input/output error'']\<rparr>\<rparr>"
  by (simp add: add_cache_entry_def one_slot_left_def calm_storage_def sys_open_def issue_def
      report_def)

lemma one_slot_left_fill:
  "fill_up_cache [''a'', ''b''] one_slot_left = (add_cache_entry ''a'' one_slot_left, [''b''])"
proof -
  have "sint (max_cache_entries one_slot_left - word_of_nat (length (file_cache one_slot_left))) = 1"
    by (simp add: one_slot_left_def)
  then show ?thesis
    by (simp add: fill_up_cache_def)
qed

lemma one_slot_left_pin:
  "PinFiles [''a'', ''b''] one_slot_left = (add_cache_entry ''a'' one_slot_left, Waiting [''b''])"
proof -
  have p: "pin_loop [''a'', ''b''] (file_cache one_slot_left) [] = (file_cache one_slot_left, [''a'', ''b''])"
    by (simp add: one_slot_left_def)
  have c: "\<not> int (length [''a'', ''b'']) > sint (max_cache_entries one_slot_left) mod 2 ^ 64"
    by (simp add: one_slot_left_def)
  have w: "wait_loop [''b''] (add_cache_entry ''a'' one_slot_left) =
             (add_cache_entry ''a'' one_slot_left, Waiting [''b''])"
    by (subst wait_loop.simps) (simp add: one_slot_left_add, simp add: one_slot_left_def entry_def)
  have "one_slot_left\<lparr>file_cache := file_cache one_slot_left\<rparr> = one_slot_left"
    by simp
  with p c w one_slot_left_fill show ?thesis
    by (simp add: PinFiles_def del: pin_loop.simps)
qed

text \<open>
  C6. A cache of capacity 2 holds one pinned entry, and \<^verbatim>\<open>PinFiles\<close> is called with the
  names \<open>a\<close> and \<open>b\<close>, where \<^verbatim>\<open>open\<close> fails for \<open>a\<close> only. \<^verbatim>\<open>fill_up_cache\<close> counts the
  failed attempt as a slot filled: its loop ends with \<open>b\<close> left in \<^verbatim>\<open>files_not_pinned\<close>,
  never attempted, although the table still holds one entry of two, and \<^verbatim>\<open>PinFiles\<close> goes on
  to wait for an eviction.
\<close>

theorem fill_stops_with_a_free_slot:
  "fill_up_cache [''a'', ''b''] one_slot_left = (add_cache_entry ''a'' one_slot_left, [''b'']) \<and>
   file_cache (add_cache_entry ''a'' one_slot_left) = [(''x'', entry CHR ''x'' 1 False 3)] \<and>
   sint (max_cache_entries (add_cache_entry ''a'' one_slot_left)) = 2 \<and>
   PinFiles [''a'', ''b''] one_slot_left = (add_cache_entry ''a'' one_slot_left, Waiting [''b''])"
  by (simp add: one_slot_left_fill one_slot_left_pin one_slot_left_add)
     (simp add: one_slot_left_def)

section \<open>Destruction\<close>

lemma CacheEntry_dtor_pinned: "pin_count ce \<noteq> 0 \<Longrightarrow> CacheEntry_dtor ce st = st"
  by (simp add: CacheEntry_dtor_def)

lemma files_CacheEntry_dtor_clean:
  "\<not> dirty ce \<Longrightarrow> files (CacheEntry_dtor ce st) = files st"
  by (simp add: CacheEntry_dtor_def sys_close_def issue_def)

text \<open>
  C4. In a cache with a pinned dirty entry \<open>a\<close>, an unpinned dirty entry \<open>b\<close> and an
  unpinned clean entry \<open>c\<close>, the calls that destruction issues are a seek and a write of
  the buffer of \<open>b\<close> and the \<^verbatim>\<open>close\<close> of \<open>b\<close> and of \<open>c\<close>. The buffer of \<open>a\<close> is never
  written and the file \<open>a\<close> is what it was: \<^verbatim>\<open>~CacheEntry\<close> does nothing when \<^verbatim>\<open>pin_count_\<close>
  is not zero.
\<close>

theorem pinned_dirty_entry_not_flushed:
  "map_of (file_cache three_entries) ''a'' = Some (entry CHR ''a'' 1 True 3) \<and>
   dirty (entry CHR ''a'' 1 True 3) \<and> pin_count (entry CHR ''a'' 1 True 3) = 1 \<and>
   trace (disk three_entries) = [] \<and>
   set (trace (FileCacheImpl_dtor three_entries)) =
     {Lseek 4, Write 4 (replicate FILE_SIZE CHR ''b''), Close 4, Close 5} \<and>
   files (FileCacheImpl_dtor three_entries) ''a'' = files (disk three_entries) ''a'' \<and>
   fdtab (FileCacheImpl_dtor three_entries) 3 = Some ''a''"
proof -
  have t: "trace (FileCacheImpl_dtor three_entries) =
             [Lseek 4, Write 4 (replicate FILE_SIZE CHR ''b''), Close 4, Close 5]"
    by (simp add: three_entries_def entry_def calm_storage_def FileCacheImpl_dtor_def
        trace_CacheEntry_dtor)
  have f: "files (FileCacheImpl_dtor three_entries) ''a'' = files (disk three_entries) ''a''"
    "fdtab (FileCacheImpl_dtor three_entries) 3 = Some ''a''"
    by (simp_all add: three_entries_def entry_def calm_storage_def FileCacheImpl_dtor_def
        CacheEntry_dtor_def flush_def sys_write_def sys_lseek_def sys_close_def issue_def
        contents_def)
  show ?thesis
    unfolding t using f by (auto simp: three_entries_def entry_def calm_storage_def)
qed

section \<open>UnpinFiles\<close>

lemma map_of_map_modify:
  "map_of (map_modify k f tbl) x =
     (if x = k then map_option f (map_of tbl k) else map_of tbl x)"
  by (induction tbl) auto

lemma map_fst_map_modify: "map fst (map_modify k f tbl) = map fst tbl"
  by (induction tbl) auto

lemma unpin_loop_keys: "map fst (fst (unpin_loop names tbl ev)) = map fst tbl"
  by (induction names arbitrary: tbl ev) (auto simp: map_fst_map_modify split: option.splits)

lemma unpin_loop_lookup:
  "map_of (fst (unpin_loop names tbl ev)) x =
     map_option (\<lambda>ce. ce\<lparr>pin_count := pin_count ce - word_of_nat (count_list names x)\<rparr>)
       (map_of tbl x)"
proof (induction names arbitrary: tbl ev)
  case Nil
  show ?case by (simp add: option.map_ident)
next
  case (Cons name rest)
  show ?case
  proof (cases "map_of tbl name")
    case None
    then show ?thesis
      using Cons.IH [of tbl ev] by (cases "x = name") simp_all
  next
    case (Some ce)
    then show ?thesis
      using Cons.IH [of "map_modify name (\<lambda>ce. ce\<lparr>pin_count := pin_count ce - 1\<rparr>) tbl"]
      by (cases "map_of tbl x") (auto simp: map_of_map_modify)
  qed
qed

lemma word_minus_one_eq: "(p :: 32 word) - 1 = word_of_nat c \<longleftrightarrow> p = word_of_nat (Suc c)"
  by (auto simp: algebra_simps)

lemma unpin_loop_flag:
  "snd (unpin_loop names tbl ev) \<longleftrightarrow>
     ev \<or> (\<exists>i < length names. \<exists>ce. map_of tbl (names ! i) = Some ce \<and>
             pin_count ce = word_of_nat (count_list (take (Suc i) names) (names ! i)))"
proof (induction names arbitrary: tbl ev)
  case Nil
  show ?case by simp
next
  case (Cons name rest)
  show ?case
  proof (cases "map_of tbl name")
    case None
    have "\<And>i ce. map_of tbl (rest ! i) = Some ce \<Longrightarrow> rest ! i \<noteq> name"
      using None by auto
    then show ?thesis
      using None Cons.IH [of tbl ev] by (auto simp: Ex_less_Suc2)
  next
    case (Some ce)
    let ?tbl1 = "map_modify name (\<lambda>ce. ce\<lparr>pin_count := pin_count ce - 1\<rparr>) tbl"
    have hit: "(\<exists>ce1. map_of ?tbl1 (rest ! i) = Some ce1 \<and>
                  pin_count ce1 = word_of_nat (count_list (take (Suc i) rest) (rest ! i))) \<longleftrightarrow>
               (\<exists>ce0. map_of tbl (rest ! i) = Some ce0 \<and>
                  pin_count ce0 =
                    word_of_nat (count_list (name # take (Suc i) rest) (rest ! i)))" for i
      using Some by (cases "rest ! i = name") (auto simp: map_of_map_modify word_minus_one_eq)
    have first: "pin_count ce - 1 = 0 \<longleftrightarrow> pin_count ce = 1"
      by auto
    show ?thesis
      using Some Cons.IH [of ?tbl1 "if pin_count ce - 1 = 0 then True else ev"]
      unfolding hit by (auto simp: Ex_less_Suc2 first)
  qed
qed

lemma unat_minus_of_nat:
  "c \<le> unat (p :: 32 word) \<Longrightarrow> unat (p - word_of_nat c) = unat p - c"
  by (simp add: le_unat_uoi unat_sub word_le_nat_alt)

text \<open>
  C7. \<^verbatim>\<open>UnpinFiles\<close> changes nothing but pin counts: the keys, the storage and the
  capacity stay, and the entry of every name has its pin count lowered by the number of
  times the name occurs in \<^verbatim>\<open>file_vec\<close> (a name that is not resident stays absent). For a
  caller that does not unpin more often than the entry is pinned this is the subtraction
  on natural numbers, without wrap-around. \<^verbatim>\<open>notify_all\<close> is called exactly when, for some
  position \<open>i\<close> of \<^verbatim>\<open>file_vec\<close>, the name there is resident and its pin count before the call
  equals the number of its occurrences up to and including \<open>i\<close>, that is, when the
  decrement made for position \<open>i\<close> brought the pin count to zero.
\<close>

theorem UnpinFiles_decrements_and_notifies:
  "UnpinFiles file_vec s = (s', notified) \<Longrightarrow>
     map fst (file_cache s') = map fst (file_cache s) \<and>
     disk s' = disk s \<and> max_cache_entries s' = max_cache_entries s \<and>
     (\<forall>name. map_of (file_cache s') name =
        map_option (\<lambda>ce. ce\<lparr>pin_count := pin_count ce - word_of_nat (count_list file_vec name)\<rparr>)
          (map_of (file_cache s) name)) \<and>
     (\<forall>name ce. map_of (file_cache s) name = Some ce \<and>
                 count_list file_vec name \<le> unat (pin_count ce) \<longrightarrow>
        (\<exists>ce'. map_of (file_cache s') name = Some ce' \<and>
               unat (pin_count ce') = unat (pin_count ce) - count_list file_vec name)) \<and>
     (notified \<longleftrightarrow>
        (\<exists>i < length file_vec. \<exists>ce. map_of (file_cache s) (file_vec ! i) = Some ce \<and>
           pin_count ce = word_of_nat (count_list (take (Suc i) file_vec) (file_vec ! i))))"
proof -
  assume u: "UnpinFiles file_vec s = (s', notified)"
  have tbl: "file_cache s' = fst (unpin_loop file_vec (file_cache s) False)"
    and flag: "notified = snd (unpin_loop file_vec (file_cache s) False)"
    and rest: "disk s' = disk s" "max_cache_entries s' = max_cache_entries s"
    using u by (auto simp: UnpinFiles_def split: prod.splits)
  have keys: "map fst (file_cache s') = map fst (file_cache s)"
    unfolding tbl by (rule unpin_loop_keys)
  have look: "\<forall>name. map_of (file_cache s') name =
        map_option (\<lambda>ce. ce\<lparr>pin_count := pin_count ce - word_of_nat (count_list file_vec name)\<rparr>)
          (map_of (file_cache s) name)"
    unfolding tbl by (simp add: unpin_loop_lookup)
  have dec: "\<forall>name ce. map_of (file_cache s) name = Some ce \<and>
                 count_list file_vec name \<le> unat (pin_count ce) \<longrightarrow>
        (\<exists>ce'. map_of (file_cache s') name = Some ce' \<and>
               unat (pin_count ce') = unat (pin_count ce) - count_list file_vec name)"
    using look by (simp add: unat_minus_of_nat)
  have ntf: "notified \<longleftrightarrow>
        (\<exists>i < length file_vec. \<exists>ce. map_of (file_cache s) (file_vec ! i) = Some ce \<and>
           pin_count ce = word_of_nat (count_list (take (Suc i) file_vec) (file_vec ! i)))"
    unfolding flag using unpin_loop_flag [of file_vec "file_cache s" False] by simp
  from keys rest look dec ntf show ?thesis by blast
qed

lemma three_entries_unpin:
  "UnpinFiles [''a'', ''q''] three_entries =
     (three_entries\<lparr>file_cache :=
        [(''a'', entry CHR ''a'' 0 True 3), (''b'', entry CHR ''b'' 0 True 4),
         (''c'', entry CHR ''c'' 0 False 5)]\<rparr>, True)"
  by (simp add: UnpinFiles_def three_entries_def entry_def)

theorem UnpinFiles_decrements_and_notifies_witness:
  "UnpinFiles [''a'', ''q''] three_entries =
     (three_entries\<lparr>file_cache :=
        [(''a'', entry CHR ''a'' 0 True 3), (''b'', entry CHR ''b'' 0 True 4),
         (''c'', entry CHR ''c'' 0 False 5)]\<rparr>, True) \<and>
   map_of (file_cache three_entries) ''a'' = Some (entry CHR ''a'' 1 True 3) \<and>
   count_list [''a'', ''q''] ''a'' \<le> unat (pin_count (entry CHR ''a'' 1 True 3)) \<and>
   (\<exists>ce'. map_of (file_cache (fst (UnpinFiles [''a'', ''q''] three_entries))) ''a'' = Some ce' \<and>
          unat (pin_count ce') = 0)"
proof -
  have a: "map_of (file_cache three_entries) ''a'' = Some (entry CHR ''a'' 1 True 3)"
    by (simp add: three_entries_def)
  have c: "count_list [''a'', ''q''] ''a'' \<le> unat (pin_count (entry CHR ''a'' 1 True 3))"
    by (simp add: entry_def)
  from UnpinFiles_decrements_and_notifies [OF three_entries_unpin] a c
  have "\<exists>ce'. map_of (file_cache (fst (UnpinFiles [''a'', ''q''] three_entries))) ''a'' = Some ce' \<and>
          unat (pin_count ce') = unat (pin_count (entry CHR ''a'' 1 True 3)) - count_list [''a'', ''q''] ''a''"
    unfolding three_entries_unpin fst_conv by blast
  then show ?thesis
    using a c by (simp add: three_entries_unpin entry_def)
qed

section \<open>The capacity\<close>

lemma sint_minus_of_nat:
  assumes "int n \<le> sint (m :: 32 word)"
  shows "sint (m - word_of_nat n) = sint m - int n"
proof -
  have "m - word_of_nat n = (word_of_int (sint m - int n) :: 32 word)"
    by simp
  then have "sint (m - word_of_nat n) = signed_take_bit 31 (sint m - int n)"
    by (simp only: sint_sbintrunc') simp
  moreover have "sint m < 2 ^ 31" "- (2 ^ 31) \<le> sint m"
    using sint_lt [of m] sint_ge [of m] by simp_all
  ultimately show ?thesis
    using assms by (simp add: signed_take_bit_int_eq_self)
qed

lemma sint_mod_64:
  "0 \<le> sint (m :: 32 word) \<Longrightarrow> sint m mod 2 ^ 64 = sint m"
  using sint_lt [of m] by simp

lemma length_map_modify [simp]: "length (map_modify k f tbl) = length tbl"
  by (induction tbl) auto

lemma length_map_insert: "length (map_insert k e tbl) \<le> Suc (length tbl)"
  by (induction tbl) auto

lemma add_cache_entry_max [simp]:
  "max_cache_entries (add_cache_entry name s) = max_cache_entries s"
  by (simp add: add_cache_entry_def split: prod.splits)

lemma add_cache_entry_length:
  "length (file_cache (add_cache_entry name s)) \<le> Suc (length (file_cache s))"
  using length_map_insert by (simp add: add_cache_entry_def split: prod.splits)

lemma fold_add_cache_entry_max [simp]:
  "max_cache_entries (fold add_cache_entry names s) = max_cache_entries s"
  by (induction names arbitrary: s) simp_all

lemma fold_add_cache_entry_length:
  "length (file_cache (fold add_cache_entry names s)) \<le> length (file_cache s) + length names"
proof (induction names arbitrary: s)
  case Nil
  show ?case by simp
next
  case (Cons name rest)
  show ?case
    using Cons.IH [of "add_cache_entry name s"] add_cache_entry_length [of name s] by simp
qed

lemma fill_up_cache_max:
  "fill_up_cache names s = (s', left) \<Longrightarrow> max_cache_entries s' = max_cache_entries s"
  by (auto simp: fill_up_cache_def fill_loop_fold)

lemma fill_up_cache_within:
  assumes "fill_up_cache names s = (s', left)" and "within_capacity s"
  shows "within_capacity s'"
proof -
  define e where "e = sint (max_cache_entries s - word_of_nat (length (file_cache s)))"
  have e: "e = sint (max_cache_entries s) - int (length (file_cache s))"
    unfolding e_def using assms(2) by (simp add: within_capacity_def sint_minus_of_nat)
  have s': "s' = fold add_cache_entry (take (min (length names) (nat e)) names) s"
    using assms(1) by (simp add: fill_up_cache_def fill_loop_fold e_def)
  have "length (file_cache s') \<le> length (file_cache s) + nat e"
    unfolding s'
    using fold_add_cache_entry_length [of "take (min (length names) (nat e)) names" s] by simp
  then show ?thesis
    using e assms(2) by (simp add: within_capacity_def s')
qed

lemma pin_loop_length: "length (fst (pin_loop names tbl fnp)) = length tbl"
  by (induction names arbitrary: tbl fnp) (auto split: option.splits)

lemma claim_loop_length_tbl: "length (fst (claim_loop names tbl)) = length tbl"
  by (induction names arbitrary: tbl) (simp_all add: case_prod_beta split: option.splits)

lemma unpin_loop_length: "length (fst (unpin_loop names tbl ev)) = length tbl"
  by (induction names arbitrary: tbl ev) (auto split: option.splits)

lemma evict_cache_entries_within:
  assumes "evict_cache_entries n s = (s', evicted)"
  shows "max_cache_entries s' = max_cache_entries s"
    and "within_capacity s \<Longrightarrow> within_capacity s'"
proof -
  obtain kept st' c where l: "evict_loop n 0 (file_cache s) (disk s) = (kept, st', c)"
    by (cases "evict_loop n 0 (file_cache s) (disk s)") auto
  with assms(1) have s': "file_cache s' = kept" and m: "max_cache_entries s' = max_cache_entries s"
    by (auto simp: evict_cache_entries_def)
  have "length kept \<le> length (file_cache s)"
    using evict_loop_subseq [OF l] by (metis list_emb_length)
  with s' m show "within_capacity s \<Longrightarrow> within_capacity s'"
    by (simp add: within_capacity_def)
  show "max_cache_entries s' = max_cache_entries s" by (rule m)
qed

lemma wait_loop_within:
  "wait_loop names s = (s', r) \<Longrightarrow>
   max_cache_entries s' = max_cache_entries s \<and> (within_capacity s \<longrightarrow> within_capacity s')"
proof (induction names s arbitrary: s' r rule: wait_loop.induct)
  case (1 names s)
  show ?case
  proof (cases "names = [] \<or> \<not> cache_entries_evictable (file_cache s)")
    case True
    with "1.prems" show ?thesis
      by (subst (asm) wait_loop.simps) (auto split: if_splits)
  next
    case False
    obtain tbl left where cl: "claim_loop names (file_cache s) = (tbl, left)"
      by (cases "claim_loop names (file_cache s)")
    have tbl: "length tbl = length (file_cache s)"
      using claim_loop_length_tbl [of names "file_cache s"] cl by simp
    let ?s0 = "s\<lparr>file_cache := tbl\<rparr>"
    have w0: "within_capacity s \<longrightarrow> within_capacity ?s0"
      using tbl by (simp add: within_capacity_def)
    show ?thesis
    proof (cases "left = []")
      case True
      with "1.prems"(1) False cl w0 show ?thesis
        by (subst (asm) wait_loop.simps) auto
    next
      case nonempty: False
      obtain s1 ev where ev: "evict_cache_entries (sint (word_of_nat (length left) :: 32 word)) ?s0 = (s1, ev)"
        by (cases "evict_cache_entries (sint (word_of_nat (length left) :: 32 word)) ?s0")
      have m1: "max_cache_entries s1 = max_cache_entries s"
        and w1: "within_capacity s \<longrightarrow> within_capacity s1"
        using evict_cache_entries_within [OF ev] w0 by simp_all
      show ?thesis
      proof (cases "unat ev \<le> length left")
        case False
        with "1.prems"(1) \<open>\<not> (names = [] \<or> \<not> cache_entries_evictable (file_cache s))\<close>
          cl nonempty ev w1 m1 show ?thesis
          by (subst (asm) wait_loop.simps) auto
      next
        case True
        obtain s2 left' where fl: "fill_up_cache left s1 = (s2, left')"
          by (cases "fill_up_cache left s1")
        have m2: "max_cache_entries s2 = max_cache_entries s"
          and w2: "within_capacity s \<longrightarrow> within_capacity s2"
          using fill_up_cache_within [OF fl] w1 fill_up_cache_max [OF fl] m1 by auto
        have rec: "wait_loop left' s2 = (s', r)"
          using "1.prems"(1) \<open>\<not> (names = [] \<or> \<not> cache_entries_evictable (file_cache s))\<close>
            cl nonempty ev True fl
          by (subst (asm) wait_loop.simps) auto
        have "max_cache_entries s' = max_cache_entries s2 \<and>
              (within_capacity s2 \<longrightarrow> within_capacity s')"
          using \<open>\<not> (names = [] \<or> \<not> cache_entries_evictable (file_cache s))\<close>
          by (intro "1.IH" [OF _ _ cl [symmetric] nonempty ev [symmetric] _ fl [symmetric] rec])
             (use True in auto)
        with m2 w2 show ?thesis by simp
      qed
    qed
  qed
qed

lemma PinFiles_within:
  assumes "PinFiles file_vec s = (s', r)"
  shows "max_cache_entries s' = max_cache_entries s \<and> (within_capacity s \<longrightarrow> within_capacity s')"
proof (cases "int (length file_vec) > sint (max_cache_entries s) mod 2 ^ 64")
  case True
  with assms show ?thesis by (simp add: PinFiles_def)
next
  case False
  obtain tbl names where pl: "pin_loop file_vec (file_cache s) [] = (tbl, names)"
    by (cases "pin_loop file_vec (file_cache s) []")
  have "length tbl = length (file_cache s)"
    using pin_loop_length [of file_vec "file_cache s" "[]"] pl by simp
  then have w0: "within_capacity s \<longrightarrow> within_capacity (s\<lparr>file_cache := tbl\<rparr>)"
    by (simp add: within_capacity_def)
  obtain s1 left where fl: "fill_up_cache names (s\<lparr>file_cache := tbl\<rparr>) = (s1, left)"
    by (cases "fill_up_cache names (s\<lparr>file_cache := tbl\<rparr>)")
  have m1: "max_cache_entries s1 = max_cache_entries s"
    and w1: "within_capacity s \<longrightarrow> within_capacity s1"
    using fill_up_cache_within [OF fl] w0 fill_up_cache_max [OF fl] by auto
  show ?thesis
  proof (cases "left = []")
    case True
    with assms(1) False pl fl w1 m1 show ?thesis by (simp add: PinFiles_def)
  next
    case nonempty: False
    with assms(1) False pl fl have "wait_loop left s1 = (s', r)" by (simp add: PinFiles_def)
    from wait_loop_within [OF this] m1 w1 show ?thesis by simp
  qed
qed

lemma UnpinFiles_within:
  "UnpinFiles file_vec s = (s', notified) \<Longrightarrow>
   max_cache_entries s' = max_cache_entries s \<and> (within_capacity s \<longrightarrow> within_capacity s')"
  using unpin_loop_length [of file_vec "file_cache s" False]
  by (auto simp: UnpinFiles_def within_capacity_def split: prod.splits)

lemma MutableFileData_within:
  "MutableFileData file_name s = (s', buf) \<Longrightarrow>
   max_cache_entries s' = max_cache_entries s \<and> (within_capacity s \<longrightarrow> within_capacity s')"
  by (auto simp: MutableFileData_def within_capacity_def split: option.splits)

lemma client_write_within:
  "max_cache_entries (client_write file_name bytes s) = max_cache_entries s \<and>
   (within_capacity s \<longrightarrow> within_capacity (client_write file_name bytes s))"
  by (simp add: client_write_def within_capacity_def)

text \<open>
  C2, as amended. When \<^verbatim>\<open>max_cache_entries_\<close> is not negative, every state that the
  operations reach from an empty cache, observed between two critical sections, holds at
  most \<^verbatim>\<open>max_cache_entries_\<close> entries.
\<close>

theorem table_size_bounded:
  "reachable s ws \<Longrightarrow> 0 \<le> sint (max_cache_entries s) \<Longrightarrow>
   int (length (file_cache s)) \<le> sint (max_cache_entries s)"
proof -
  have "reachable s ws \<Longrightarrow> 0 \<le> sint (max_cache_entries s) \<longrightarrow> within_capacity s"
  proof (induction rule: reachable.induct)
    case (start s)
    then show ?case by (simp add: within_capacity_def)
  next
    case (pin s ws file_vec s' r)
    then show ?case using PinFiles_within [of file_vec s s' r] by simp
  next
    case (wake s ws names s' r)
    then show ?case using wait_loop_within [of names s s' r] by simp
  next
    case (unpin s ws file_vec s' notified)
    then show ?case using UnpinFiles_within [of file_vec s s' notified] by simp
  next
    case (data s ws file_name s' buf)
    then show ?case using MutableFileData_within [of file_name s s' buf] by simp
  next
    case (client s ws bytes file_name)
    then show ?case using client_write_within [of file_name bytes s] by simp
  qed
  then show "reachable s ws \<Longrightarrow> 0 \<le> sint (max_cache_entries s) \<Longrightarrow>
   int (length (file_cache s)) \<le> sint (max_cache_entries s)"
    by (simp add: within_capacity_def)
qed

theorem table_size_bounded_witness:
  "reachable (add_cache_entry ''f'' empty_cache) [] \<and>
   0 \<le> sint (max_cache_entries (add_cache_entry ''f'' empty_cache)) \<and>
   int (length (file_cache (add_cache_entry ''f'' empty_cache))) \<le> 3"
proof -
  have "file_cache empty_cache = []" by (simp add: empty_cache_def)
  then have "reachable empty_cache []" by (rule reachable.start)
  from reachable.pin [OF this empty_cache_pin]
  have r: "reachable (add_cache_entry ''f'' empty_cache) []" by simp
  have m: "0 \<le> sint (max_cache_entries (add_cache_entry ''f'' empty_cache))"
    by (simp add: empty_cache_def)
  from table_size_bounded [OF r m] r m show ?thesis
    by (simp add: empty_cache_def)
qed

text \<open>
  C2 as stated fails for a cache constructed with a negative capacity: its empty table
  already has more entries than \<^verbatim>\<open>max_cache_entries_\<close>.
\<close>

theorem negative_capacity_exceeded_at_start:
  "reachable negative_capacity [] \<and>
   \<not> int (length (file_cache negative_capacity)) \<le> sint (max_cache_entries negative_capacity)"
proof -
  have "file_cache negative_capacity = []"
    by (simp add: negative_capacity_def empty_cache_def)
  then show ?thesis
    using reachable.start [of negative_capacity] by (simp add: negative_capacity_def)
qed

text \<open>
  C8, as amended. When \<^verbatim>\<open>max_cache_entries_\<close> is not negative and \<^verbatim>\<open>file_vec\<close> has more names
  than that, \<^verbatim>\<open>PinFiles\<close> throws and leaves the cache and the storage as they were.
\<close>

theorem PinFiles_too_many_names:
  "0 \<le> sint (max_cache_entries s) \<Longrightarrow> sint (max_cache_entries s) < int (length file_vec) \<Longrightarrow>
   PinFiles file_vec s = (s, Thrown)"
proof -
  assume nonneg: "0 \<le> sint (max_cache_entries s)"
    and more: "sint (max_cache_entries s) < int (length file_vec)"
  from nonneg have "sint (max_cache_entries s) mod 2 ^ 64 = sint (max_cache_entries s)"
    by (rule sint_mod_64)
  then show ?thesis
    unfolding PinFiles_def using more by simp
qed

theorem PinFiles_too_many_names_witness:
  "0 \<le> sint (max_cache_entries empty_cache) \<and>
   sint (max_cache_entries empty_cache) < int (length [''a'', ''b'', ''c'', ''d'']) \<and>
   PinFiles [''a'', ''b'', ''c'', ''d''] empty_cache = (empty_cache, Thrown)"
proof -
  have a: "0 \<le> sint (max_cache_entries empty_cache)"
    and b: "sint (max_cache_entries empty_cache) < int (length [''a'', ''b'', ''c'', ''d''])"
    by (simp_all add: empty_cache_def)
  from PinFiles_too_many_names [OF a b] a b show ?thesis by simp
qed

text \<open>
  C8 as stated fails for a negative capacity: the comparison converts \<open>-1\<close> to the largest
  \<^verbatim>\<open>size_t\<close>, so no call throws, although every call has more names than \<open>-1\<close>. A call
  without names returns, a call with one name waits.
\<close>

lemma negative_capacity_pin:
  "PinFiles [] negative_capacity = (negative_capacity, Returned)"
  "PinFiles [''f''] negative_capacity = (negative_capacity, Waiting [''f''])"
proof -
  have chk: "\<not> int (length ([] :: string list)) > sint (max_cache_entries negative_capacity) mod 2 ^ 64"
    "\<not> int (length [''f'']) > sint (max_cache_entries negative_capacity) mod 2 ^ 64"
    by (simp_all add: negative_capacity_def)
  have tbl: "file_cache negative_capacity = []"
    by (simp add: negative_capacity_def empty_cache_def)
  have same: "negative_capacity\<lparr>file_cache := []\<rparr> = negative_capacity"
    by (simp add: negative_capacity_def empty_cache_def)
  have e: "sint (max_cache_entries negative_capacity - word_of_nat (length (file_cache negative_capacity))) = - 1"
    by (simp add: negative_capacity_def empty_cache_def)
  have fill: "fill_up_cache [] negative_capacity = (negative_capacity, [])"
    "fill_up_cache [''f''] negative_capacity = (negative_capacity, [''f''])"
    by (simp_all add: fill_up_cache_def e)
  have w: "wait_loop [''f''] negative_capacity = (negative_capacity, Waiting [''f''])"
    by (subst wait_loop.simps) (simp add: tbl)
  show "PinFiles [] negative_capacity = (negative_capacity, Returned)"
    unfolding PinFiles_def tbl using chk(1) by (simp add: same fill)
  show "PinFiles [''f''] negative_capacity = (negative_capacity, Waiting [''f''])"
    unfolding PinFiles_def tbl using chk(2) by (simp add: same fill w)
qed

theorem negative_capacity_never_throws:
  "sint (max_cache_entries negative_capacity) = - 1 \<and>
   sint (max_cache_entries negative_capacity) < int (length ([] :: string list)) \<and>
   PinFiles [] negative_capacity = (negative_capacity, Returned) \<and>
   sint (max_cache_entries negative_capacity) < int (length [''f'']) \<and>
   PinFiles [''f''] negative_capacity = (negative_capacity, Waiting [''f''])"
  by (simp add: negative_capacity_pin) (simp add: negative_capacity_def)

end
